theory Spec2Isabelle
  imports Complex_Main
begin

section \<open>The lifecycle controller: AsyncObject (async.js)\<close>

text \<open>
  \<^verbatim>\<open>open\<close> and \<^verbatim>\<open>close\<close> are generator functions run as coroutines: a call runs
  synchronously up to its first \<^verbatim>\<open>yield\<close>, and every \<^verbatim>\<open>yield\<close> of a promise suspends the
  call until that promise settles, so other calls run in between. The model is a
  small-step machine. Its state holds the three flags, the lock, the registered event
  listeners, one frame per call made so far (where the call is suspended, or how its
  promise settled) and a trace of the effects on the outside world (hook invocations,
  notifications, lock traffic). A step is either a new call (its synchronous first
  segment) or the resumption of one suspended call (the segment up to its next
  \<^verbatim>\<open>yield\<close>). The coroutine runner (utils/co) is not among the sources; what is used of
  it is that the promise of a call is rejected with what the generator throws and
  resolved with what it returns, and that \<^verbatim>\<open>co.wait()\<close> is a promise fulfilled with
  \<^verbatim>\<open>undefined\<close> in a later turn.

  The hooks \<^verbatim>\<open>_open\<close> and \<^verbatim>\<open>_close\<close> are supplied by the concrete subsystem. They are
  taken as opaque: invoking one is recorded in the trace, and the environment decides
  whether it throws at once, or returns a promise that is later fulfilled or rejected.
  Hooks and observers do not re-enter the component.

  What is thrown, and what a promise is rejected with, can be any value. \<open>error\<close> holds
  such values: the Error objects (the assertion's, a hook's own, and the one the emitter
  makes when \<^verbatim>\<open>'error'\<close> is emitted unobserved with something that is no Error object),
  and what is not an Error object, truthy (\<open>Truthy\<close>: a string, a number, a plain
  object) or falsy (\<open>Falsy\<close>: \<^verbatim>\<open>undefined\<close>, \<^verbatim>\<open>null\<close>, \<^verbatim>\<open>0\<close>, the empty string).
\<close>

datatype error = AssertionError string | HookError nat | Unspecified | Truthy nat | Falsy nat

fun is_Error :: "error \<Rightarrow> bool" where
  "is_Error (Truthy n) = False"
| "is_Error (Falsy n) = False"
| "is_Error e = True"

fun is_truthy :: "error \<Rightarrow> bool" where
  "is_truthy (Falsy n) = False"
| "is_truthy e = True"

text \<open>
  \<^verbatim>\<open>if (err)\<close>: \<^verbatim>\<open>err\<close> is \<^verbatim>\<open>undefined\<close> unless the hook threw or its promise was rejected,
  and then it is the value caught. The failure branch is taken when that value is truthy.
\<close>

fun failing :: "error option \<Rightarrow> error option" where
  "failing None = None"
| "failing (Some e) = (if is_truthy e then Some e else None)"

datatype jsval = Undefined | ErrorVal error

datatype event = Preopen | OpenEv | Preclose | CloseEv | ErrorEv

text \<open>The five events can be enumerated, so tables indexed by events can be compared.\<close>

instantiation event :: enum
begin

definition enum_event :: "event list" where
  "enum_event = [Preopen, OpenEv, Preclose, CloseEv, ErrorEv]"

definition enum_all_event :: "(event \<Rightarrow> bool) \<Rightarrow> bool" where
  "enum_all_event P = (P Preopen \<and> P OpenEv \<and> P Preclose \<and> P CloseEv \<and> P ErrorEv)"

definition enum_ex_event :: "(event \<Rightarrow> bool) \<Rightarrow> bool" where
  "enum_ex_event P = (P Preopen \<or> P OpenEv \<or> P Preclose \<or> P CloseEv \<or> P ErrorEv)"

instance
proof
  have univ: "(UNIV :: event set) = {Preopen, OpenEv, Preclose, CloseEv, ErrorEv}"
    using event.exhaust by auto
  show "(UNIV :: event set) = set enum_class.enum"
    by (simp add: univ enum_event_def)
  show "distinct (enum_class.enum :: event list)"
    by (simp add: enum_event_def)
  show "\<And>P. enum_class.enum_all P = Ball (UNIV :: event set) P"
    by (simp add: univ enum_all_event_def)
  show "\<And>P. enum_class.enum_ex P = Bex (UNIV :: event set) P"
    by (simp add: univ enum_ex_event_def)
qed

end

text \<open>
  A listener is either the \<^verbatim>\<open>resolve\<close> function that \<^verbatim>\<open>_onOpen\<close> / \<^verbatim>\<open>_onClose\<close> registered
  with \<^verbatim>\<open>once\<close> for the call of that number, or an outside observer.
\<close>

datatype listener = Once nat | Observer nat

datatype outcome = Resolved jsval | Rejected error

datatype kind = OpenCall | CloseCall

text \<open>What an invocation of a hook does at the call: throw, or return a promise.\<close>

datatype hook_call = Throws error | Returns

text \<open>
  Where a call stands: suspended at \<^verbatim>\<open>return yield co.wait()\<close> (\<open>AtReturn\<close>), at
  \<^verbatim>\<open>return yield this._onOpen()\<close> with the value that promise was resolved with, if it was
  (\<open>AtEvent\<close>), at \<^verbatim>\<open>yield this.locker.lock()\<close> with whether the lock was granted
  (\<open>AtLock\<close>), at \<^verbatim>\<open>yield this._open()\<close> (\<open>AtHook\<close>), at the \<^verbatim>\<open>yield co.wait()\<close> that
  follows the hook with the error caught, if any (\<open>AtTick\<close>); or settled.
\<close>

datatype pc = AtReturn | AtEvent "jsval option" | AtLock bool | AtHook
  | AtTick "error option" | Settled outcome

datatype effect = InitHook | TeardownHook | Emitted event jsval
  | Notified nat event jsval | LockCalled nat | Unlocked

record frame =
  kind :: kind
  holds :: bool
  pc :: pc

record Locker =
  busy :: bool
  jobs :: "nat list"

record component =
  loading :: bool
  closing :: bool
  loaded :: bool
  locker :: "Locker option"
  listeners :: "event \<Rightarrow> listener list"
  calls :: "frame list"
  trace :: "effect list"

text \<open>The constructor: all flags false, no lock.\<close>

definition AsyncObject :: component where
  "AsyncObject = \<lparr>loading = False, closing = False, loaded = False, locker = None,
     listeners = (\<lambda>_. []), calls = [], trace = []\<rparr>"

definition new_frame :: "kind \<Rightarrow> pc \<Rightarrow> component \<Rightarrow> component" where
  "new_frame k p s = s\<lparr>calls := calls s @ [\<lparr>kind = k, holds = False, pc = p\<rparr>]\<rparr>"

definition set_pc :: "nat \<Rightarrow> pc \<Rightarrow> component \<Rightarrow> component" where
  "set_pc c p s = s\<lparr>calls := (calls s)[c := (calls s ! c)\<lparr>pc := p\<rparr>]\<rparr>"

definition settle :: "nat \<Rightarrow> outcome \<Rightarrow> component \<Rightarrow> component" where
  "settle c out s = set_pc c (Settled out) s"

text \<open>\<^verbatim>\<open>unlock = yield this.locker.lock()\<close>: the resumed call now holds the release handle.\<close>

definition hold :: "nat \<Rightarrow> component \<Rightarrow> component" where
  "hold c s = s\<lparr>calls := (calls s)[c := (calls s ! c)\<lparr>holds := True\<rparr>]\<rparr>"

subsection \<open>The lock\<close>

text \<open>
  Modelled from the spec: the Locker class (utils/locker) is not among the sources. The
  spec (4.2) gives its contract: \<^verbatim>\<open>lock()\<close> resolves, once the lock is free, to a release
  handle, in FIFO order; a lock that is never released keeps every later \<^verbatim>\<open>lock()\<close>
  waiting. \<open>lock\<close> returns the new lock and whether the promise is resolved at once.
\<close>

definition lock :: "nat \<Rightarrow> Locker \<Rightarrow> Locker \<times> bool" where
  "lock c l = (if busy l then (l\<lparr>jobs := jobs l @ [c]\<rparr>, False) else (l\<lparr>busy := True\<rparr>, True))"

text \<open>
  Modelled from the spec: the release handle. It frees the lock, or hands it to the
  longest-waiting call, whose \<^verbatim>\<open>lock()\<close> promise is thereby resolved.
\<close>

definition unlock :: "component \<Rightarrow> component" where
  "unlock s =
     (case locker s of
        None \<Rightarrow> s
      | Some l \<Rightarrow>
          (case jobs l of
             [] \<Rightarrow> s\<lparr>locker := Some (l\<lparr>busy := False\<rparr>), trace := trace s @ [Unlocked]\<rparr>
           | c # cs \<Rightarrow>
               set_pc c (AtLock True)
                 (s\<lparr>locker := Some (l\<lparr>busy := True, jobs := cs\<rparr>),
                    trace := trace s @ [Unlocked]\<rparr>)))"

text \<open>\<^verbatim>\<open>if (unlock) unlock();\<close>\<close>

definition release :: "nat \<Rightarrow> component \<Rightarrow> component" where
  "release c s = (if holds (calls s ! c) then unlock s else s)"

subsection \<open>The event emitter\<close>

text \<open>
  The platform's EventEmitter, as far as the component uses it. Calling the \<^verbatim>\<open>resolve\<close>
  of a waiting call resolves that call's inner promise with the argument (a promise
  settles once). \<^verbatim>\<open>emit\<close> calls the listeners of the event in registration order, a
  \<^verbatim>\<open>once\<close> listener being removed as it fires; \<^verbatim>\<open>emit('error', e)\<close>, when no
  listener is registered for \<^verbatim>\<open>'error'\<close>, throws \<^verbatim>\<open>e\<close> if it is an Error object and an
  error of the emitter's own otherwise (\<open>thrown\<close>). The result is the new state and what was
  thrown, if anything.
\<close>

definition resolve :: "nat \<Rightarrow> jsval \<Rightarrow> component \<Rightarrow> component" where
  "resolve c a s =
     (if c < length (calls s) \<and> pc (calls s ! c) = AtEvent None
      then set_pc c (AtEvent (Some a)) s else s)"

fun invoke :: "event \<Rightarrow> jsval \<Rightarrow> listener \<Rightarrow> component \<Rightarrow> component" where
  "invoke ev a (Once c) s = resolve c a s"
| "invoke ev a (Observer n) s = s\<lparr>trace := trace s @ [Notified n ev a]\<rparr>"

fun is_observer :: "listener \<Rightarrow> bool" where
  "is_observer (Observer n) = True"
| "is_observer (Once c) = False"

fun thrown :: "jsval \<Rightarrow> error" where
  "thrown (ErrorVal e) = (if is_Error e then e else Unspecified)"
| "thrown Undefined = Unspecified"

definition emit :: "event \<Rightarrow> jsval \<Rightarrow> component \<Rightarrow> component \<times> error option" where
  "emit ev a s =
     (let ls = listeners s ev;
          s0 = s\<lparr>trace := trace s @ [Emitted ev a]\<rparr>
      in if ev = ErrorEv \<and> ls = [] then (s0, Some (thrown a))
         else (fold (invoke ev a) ls
                 (s0\<lparr>listeners := (listeners s0)(ev := filter is_observer ls)\<rparr>), None))"

text \<open>
  \<^verbatim>\<open>AsyncObject.prototype._error\<close>: take the listeners of the event, remove them all,
  call each with the error, then emit \<^verbatim>\<open>'error'\<close>. \<^verbatim>\<open>listeners(event)\<close> gives the
  functions as they were registered, so calling the one a waiting call registered calls
  its \<^verbatim>\<open>resolve\<close> with the error.
\<close>

definition priv_error :: "event \<Rightarrow> error \<Rightarrow> component \<Rightarrow> component \<times> error option" where
  "priv_error ev e s =
     (let ls = listeners s ev;
          s1 = s\<lparr>listeners := (listeners s)(ev := [])\<rparr>;
          s2 = fold (invoke ev (ErrorVal e)) ls s1
      in emit ErrorEv (ErrorVal e) s2)"

text \<open>\<^verbatim>\<open>_onOpen\<close>, \<^verbatim>\<open>_onClose\<close>: a new promise whose \<^verbatim>\<open>resolve\<close> is registered once.\<close>

definition priv_onOpen :: "nat \<Rightarrow> component \<Rightarrow> component" where
  "priv_onOpen c s = s\<lparr>listeners := (listeners s)(OpenEv := listeners s OpenEv @ [Once c])\<rparr>"

definition priv_onClose :: "nat \<Rightarrow> component \<Rightarrow> component" where
  "priv_onClose c s = s\<lparr>listeners := (listeners s)(CloseEv := listeners s CloseEv @ [Once c])\<rparr>"

subsection \<open>open\<close>

text \<open>
  Lines 55 to 65 of \<^verbatim>\<open>open\<close>: from \<^verbatim>\<open>this.emit('preopen')\<close> to the \<^verbatim>\<open>yield\<close> on the hook
  or, if the hook threw, on \<^verbatim>\<open>co.wait()\<close>.
\<close>

definition open_locked :: "hook_call \<Rightarrow> nat \<Rightarrow> component \<Rightarrow> component" where
  "open_locked h c s =
     (case emit Preopen Undefined s of
        (s1, Some e) \<Rightarrow> settle c (Rejected e) s1
      | (s1, None) \<Rightarrow>
          (let s2 = s1\<lparr>loading := True, trace := trace s1 @ [InitHook]\<rparr>
           in case h of
                Throws e \<Rightarrow> set_pc c (AtTick (Some e)) s2
              | Returns \<Rightarrow> set_pc c AtHook s2))"

text \<open>
  Lines 44 to 53: the call itself, from the assertion to the first \<^verbatim>\<open>yield\<close>; without a
  lock it runs on to the hook.
\<close>

definition open_start :: "hook_call \<Rightarrow> component \<Rightarrow> component" where
  "open_start h s =
     (let c = length (calls s)
      in if closing s
         then new_frame OpenCall (Settled (Rejected (AssertionError ''Cannot open while closing.''))) s
         else if loaded s then new_frame OpenCall AtReturn s
         else if loading s then priv_onOpen c (new_frame OpenCall (AtEvent None) s)
         else (case locker s of
                 Some l \<Rightarrow>
                   (case lock c l of
                      (l', g) \<Rightarrow>
                        (new_frame OpenCall (AtLock g) s)
                          \<lparr>locker := Some l', trace := trace s @ [LockCalled c]\<rparr>)
               | None \<Rightarrow> open_locked h c (new_frame OpenCall AtHook s)))"

text \<open>
  Lines 67 to 80: after the second \<^verbatim>\<open>yield co.wait()\<close>, the failure branch (\<^verbatim>\<open>err\<close> is
  truthy) or the success branch. What \<^verbatim>\<open>_error\<close> or \<^verbatim>\<open>emit\<close> throws leaves the call at once, before the
  lock is released.
\<close>

definition open_finish :: "nat \<Rightarrow> error option \<Rightarrow> component \<Rightarrow> component" where
  "open_finish c r s =
     (case failing r of
        Some e \<Rightarrow>
          (case priv_error OpenEv e (s\<lparr>loading := False\<rparr>) of
             (s1, Some e') \<Rightarrow> settle c (Rejected e') s1
           | (s1, None) \<Rightarrow> settle c (Rejected e) (release c s1))
      | None \<Rightarrow>
          (case emit OpenEv Undefined (s\<lparr>loading := False, loaded := True\<rparr>) of
             (s1, Some e') \<Rightarrow> settle c (Rejected e') s1
           | (s1, None) \<Rightarrow> settle c (Resolved Undefined) (release c s1)))"

subsection \<open>close\<close>

text \<open>Lines 88 to 128, cut at the same places as \<^verbatim>\<open>open\<close>.\<close>

definition close_locked :: "hook_call \<Rightarrow> nat \<Rightarrow> component \<Rightarrow> component" where
  "close_locked h c s =
     (case emit Preclose Undefined s of
        (s1, Some e) \<Rightarrow> settle c (Rejected e) s1
      | (s1, None) \<Rightarrow>
          (let s2 = s1\<lparr>closing := True, loaded := False, trace := trace s1 @ [TeardownHook]\<rparr>
           in case h of
                Throws e \<Rightarrow> set_pc c (AtTick (Some e)) s2
              | Returns \<Rightarrow> set_pc c AtHook s2))"

definition close_start :: "hook_call \<Rightarrow> component \<Rightarrow> component" where
  "close_start h s =
     (let c = length (calls s)
      in if loading s
         then new_frame CloseCall (Settled (Rejected (AssertionError ''Cannot close while loading.''))) s
         else if loaded s = False then new_frame CloseCall AtReturn s
         else if closing s then priv_onClose c (new_frame CloseCall (AtEvent None) s)
         else (case locker s of
                 Some l \<Rightarrow>
                   (case lock c l of
                      (l', g) \<Rightarrow>
                        (new_frame CloseCall (AtLock g) s)
                          \<lparr>locker := Some l', trace := trace s @ [LockCalled c]\<rparr>)
               | None \<Rightarrow> close_locked h c (new_frame CloseCall AtHook s)))"

definition close_finish :: "nat \<Rightarrow> error option \<Rightarrow> component \<Rightarrow> component" where
  "close_finish c r s =
     (case failing r of
        Some e \<Rightarrow>
          (case priv_error CloseEv e (s\<lparr>closing := False\<rparr>) of
             (s1, Some e') \<Rightarrow> settle c (Rejected e') s1
           | (s1, None) \<Rightarrow> settle c (Rejected e) (release c s1))
      | None \<Rightarrow>
          (case emit CloseEv Undefined (s\<lparr>closing := False\<rparr>) of
             (s1, Some e') \<Rightarrow> settle c (Rejected e') s1
           | (s1, None) \<Rightarrow> settle c (Resolved Undefined) (release c s1)))"

subsection \<open>Steps and runs\<close>

text \<open>
  A label names what happens next: a new call of \<^verbatim>\<open>open()\<close> or \<^verbatim>\<open>close()\<close> (with what the
  hook does, should this segment invoke it); a call that was granted the lock resumes;
  the promise a hook returned settles (\<open>None\<close>: fulfilled) and its call resumes; a call
  suspended on \<^verbatim>\<open>co.wait()\<close> resumes; a call whose inner promise was resolved resumes and
  returns its value; an observer is registered with \<^verbatim>\<open>on\<close>. A label that names no
  suspended call in the right place is not enabled.
\<close>

datatype label = Open hook_call | Close hook_call | Granted nat hook_call
  | HookSettled nat "error option" | Tick nat | Wake nat | On event nat

fun resume_lock :: "hook_call \<Rightarrow> nat \<Rightarrow> frame \<Rightarrow> component \<Rightarrow> component option" where
  "resume_lock h c f s =
     (case pc f of
        AtLock True \<Rightarrow>
          (case kind f of
             OpenCall \<Rightarrow> Some (open_locked h c (hold c s))
           | CloseCall \<Rightarrow> Some (close_locked h c (hold c s)))
      | _ \<Rightarrow> None)"

fun resume_hook :: "error option \<Rightarrow> nat \<Rightarrow> frame \<Rightarrow> component \<Rightarrow> component option" where
  "resume_hook r c f s = (case pc f of AtHook \<Rightarrow> Some (set_pc c (AtTick r) s) | _ \<Rightarrow> None)"

fun resume_tick :: "nat \<Rightarrow> frame \<Rightarrow> component \<Rightarrow> component option" where
  "resume_tick c f s =
     (case pc f of
        AtReturn \<Rightarrow> Some (settle c (Resolved Undefined) s)
      | AtTick r \<Rightarrow>
          (case kind f of
             OpenCall \<Rightarrow> Some (open_finish c r s)
           | CloseCall \<Rightarrow> Some (close_finish c r s))
      | _ \<Rightarrow> None)"

fun resume_event :: "nat \<Rightarrow> frame \<Rightarrow> component \<Rightarrow> component option" where
  "resume_event c f s =
     (case pc f of AtEvent (Some v) \<Rightarrow> Some (settle c (Resolved v) s) | _ \<Rightarrow> None)"

fun step :: "label \<Rightarrow> component \<Rightarrow> component option" where
  "step (Open h) s = Some (open_start h s)"
| "step (Close h) s = Some (close_start h s)"
| "step (Granted c h) s =
     (if c < length (calls s) then resume_lock h c (calls s ! c) s else None)"
| "step (HookSettled c r) s =
     (if c < length (calls s) then resume_hook r c (calls s ! c) s else None)"
| "step (Tick c) s =
     (if c < length (calls s) then resume_tick c (calls s ! c) s else None)"
| "step (Wake c) s =
     (if c < length (calls s) then resume_event c (calls s ! c) s else None)"
| "step (On ev n) s = Some (s\<lparr>listeners := (listeners s)(ev := listeners s ev @ [Observer n])\<rparr>)"

fun run :: "label list \<Rightarrow> component \<Rightarrow> component option" where
  "run [] s = Some s"
| "run (l # ls) s = (case step l s of None \<Rightarrow> None | Some s' \<Rightarrow> run ls s')"

text \<open>
  The four states of the spec, read off the flags: all false is Idle, exactly one true is
  Opening, Closing or Open. Any other combination encodes no state.
\<close>

datatype lifecycle = Idle | Opening | Opened | Closing

definition state_of :: "component \<Rightarrow> lifecycle option" where
  "state_of s =
     (case (loading s, closing s, loaded s) of
        (False, False, False) \<Rightarrow> Some Idle
      | (True, False, False) \<Rightarrow> Some Opening
      | (False, True, False) \<Rightarrow> Some Closing
      | (False, False, True) \<Rightarrow> Some Opened
      | _ \<Rightarrow> None)"

text \<open>What a run shows from outside: hook invocations and how the calls stand.\<close>

definition inits :: "component \<Rightarrow> nat" where
  "inits s = count_list (trace s) InitHook"


definition outcomes :: "component \<Rightarrow> pc list" where
  "outcomes s = map pc (calls s)"

text \<open>
  A \<^verbatim>\<open>close()\<close> that does nothing: the call only waits for \<^verbatim>\<open>co.wait()\<close> and then
  resolves with \<^verbatim>\<open>undefined\<close>; flags, lock, listeners, the other calls and the trace (so
  no hook, no notification) are as before.
\<close>

definition close_is_noop :: "hook_call \<Rightarrow> component \<Rightarrow> bool" where
  "close_is_noop h s =
     (close_start h s = s\<lparr>calls := calls s @ [\<lparr>kind = CloseCall, holds = False, pc = AtReturn\<rparr>]\<rparr>
      \<and> step (Tick (length (calls s))) (close_start h s) =
          Some (s\<lparr>calls := calls s @
                  [\<lparr>kind = CloseCall, holds = False, pc = Settled (Resolved Undefined)\<rparr>]\<rparr>))"

text \<open>The claim that the flags exclude each other: no two of them are true together.\<close>

definition exclusive :: "component \<Rightarrow> bool" where
  "exclusive s =
     (\<not> (loading s \<and> closing s) \<and> \<not> (loading s \<and> loaded s) \<and> \<not> (closing s \<and> loaded s))"

text \<open>
  The invariant of a component without a lock. A call is in transition between the
  invocation of its hook and its last segment; \<open>transit\<close> lists the kinds of the calls
  in transition, \<open>waiting\<close> counts the calls suspended on the lock. Without a lock no call
  waits for one, and the call in transition is the one the flags name: an \<^verbatim>\<open>open()\<close>
  while loading, a \<^verbatim>\<open>close()\<close> while closing, none otherwise.
\<close>

fun in_transition :: "pc \<Rightarrow> bool" where
  "in_transition AtHook = True"
| "in_transition (AtTick r) = True"
| "in_transition p = False"

fun at_lock :: "pc \<Rightarrow> bool" where
  "at_lock (AtLock g) = True"
| "at_lock p = False"

definition transit :: "component \<Rightarrow> kind list" where
  "transit s = map kind (filter (\<lambda>f. in_transition (pc f)) (calls s))"

definition waiting :: "component \<Rightarrow> nat" where
  "waiting s = length (filter (\<lambda>f. at_lock (pc f)) (calls s))"

definition lock_free :: "component \<Rightarrow> bool" where
  "lock_free s =
     (locker s = None \<and> waiting s = 0 \<and> exclusive s
      \<and> transit s = (if loading s then [OpenCall] else if closing s then [CloseCall] else []))"

text \<open>Whether a step is a new call of \<^verbatim>\<open>open()\<close>; whether a call is queued on the lock.\<close>

fun is_open :: "label \<Rightarrow> bool" where
  "is_open (Open h) = True"
| "is_open l = False"

definition queued :: "component \<Rightarrow> nat \<Rightarrow> bool" where
  "queued s w = (case locker s of None \<Rightarrow> False | Some l \<Rightarrow> w \<in> set (jobs l))"

text \<open>
  A component whose lock is held while nothing is under way: no flag is set and every
  call is settled, about to return, or waiting for the lock without having it.
\<close>

fun parked :: "pc \<Rightarrow> bool" where
  "parked AtReturn = True"
| "parked (AtLock g) = (g = False)"
| "parked (Settled out) = True"
| "parked p = False"

definition leaked :: "component \<Rightarrow> bool" where
  "leaked s =
     ((case locker s of None \<Rightarrow> False | Some l \<Rightarrow> busy l)
      \<and> loading s = False \<and> closing s = False \<and> loaded s = False
      \<and> list_all (\<lambda>f. parked (pc f)) (calls s))"

subsection \<open>Example runs\<close>

text \<open>A component as a subsystem with a lock of its own sets it up: constructed, lock free.\<close>

definition with_locker :: component where
  "with_locker = AsyncObject\<lparr>locker := Some \<lparr>busy = False, jobs = []\<rparr>\<rparr>"

text \<open>An \<^verbatim>\<open>open()\<close> whose hook is still running; one that succeeded.\<close>

definition opening_example :: component where
  "opening_example = (case run [Open Returns] AsyncObject of Some s \<Rightarrow> s | None \<Rightarrow> AsyncObject)"

definition opened_run :: "label list" where
  "opened_run = [Open Returns, HookSettled 0 None, Tick 0]"

definition opened_example :: component where
  "opened_example = (case run opened_run AsyncObject of Some s \<Rightarrow> s | None \<Rightarrow> AsyncObject)"

text \<open>An \<^verbatim>\<open>open()\<close> after its hook's promise was rejected, before the call's last segment.\<close>

definition opening_failed_example :: component where
  "opening_failed_example =
     (case run [Open Returns, HookSettled 0 (Some (HookError 1))] AsyncObject of
        Some s \<Rightarrow> s | None \<Rightarrow> AsyncObject)"

text \<open>The same with a second \<^verbatim>\<open>open()\<close> waiting for the first.\<close>

definition waiter_example :: component where
  "waiter_example =
     (case run [Open Returns, Open Returns, HookSettled 0 (Some (HookError 1))] AsyncObject of
        Some s \<Rightarrow> s | None \<Rightarrow> AsyncObject)"

text \<open>A \<^verbatim>\<open>close()\<close> of the open component whose hook is still running.\<close>

definition closing_example :: component where
  "closing_example =
     (case run (opened_run @ [Close Returns]) AsyncObject of Some s \<Rightarrow> s | None \<Rightarrow> AsyncObject)"

text \<open>
  The same \<^verbatim>\<open>close()\<close> after its hook's promise was rejected, before and after the call's
  last segment.
\<close>

definition closing_failed_example :: component where
  "closing_failed_example =
     (case run (opened_run @ [Close Returns, HookSettled 1 (Some (HookError 1))]) AsyncObject of
        Some s \<Rightarrow> s | None \<Rightarrow> AsyncObject)"


definition failed_close_run :: "label list" where
  "failed_close_run = opened_run @ [Close Returns, HookSettled 1 (Some (HookError 1)), Tick 1]"

text \<open>
  An \<^verbatim>\<open>open()\<close>, a second \<^verbatim>\<open>open()\<close> while the first is in flight, the hook's promise
  rejected, both calls run to their end.
\<close>

definition failed_open_with_waiter :: "label list" where
  "failed_open_with_waiter =
     [Open Returns, Open Returns, HookSettled 0 (Some (HookError 1)), Tick 0, Wake 1]"

text \<open>
  With a lock: two calls of \<^verbatim>\<open>open()\<close> in the same turn, before the lock's promise is
  delivered to the first; the first call runs to its end; the second gets the lock.
\<close>

definition first_open_done :: "label list" where
  "first_open_done =
     [Open Returns, Open Returns, Granted 0 Returns, HookSettled 0 None, Tick 0]"

definition double_open_run :: "label list" where
  "double_open_run =
     [Open Returns, Open Returns, Granted 0 Returns, HookSettled 0 None, Tick 0, Granted 1 Returns]"

text \<open>With a lock and no observer of \<^verbatim>\<open>'error'\<close>: one \<^verbatim>\<open>open()\<close> whose hook fails.\<close>

definition failed_open_with_lock :: "label list" where
  "failed_open_with_lock =
     [Open Returns, Granted 0 Returns, HookSettled 0 (Some (HookError 1)), Tick 0]"

definition lock_leaked_example :: component where
  "lock_leaked_example =
     (case run failed_open_with_lock with_locker of Some s \<Rightarrow> s | None \<Rightarrow> AsyncObject)"

text \<open>
  With a lock and an observer of \<^verbatim>\<open>'error'\<close>: two calls of \<^verbatim>\<open>open()\<close> in the same turn;
  the first succeeds, the hook of the second fails.
\<close>

definition failed_second_open :: "label list" where
  "failed_second_open =
     [On ErrorEv 0, Open Returns, Open Returns, Granted 0 Returns, HookSettled 0 None, Tick 0,
      Granted 1 Returns, HookSettled 1 (Some (HookError 1)), Tick 1]"

section \<open>The environment: Environment.prototype.set (env.js)\<close>

text \<open>
  JavaScript values as far as \<^verbatim>\<open>set\<close> looks at them. A number is NaN, an infinity or a
  finite value; only whether it is zero or NaN matters here (truthiness).
\<close>

datatype jsnum = NaN | Infinity bool | Finite rat

datatype jsvalue = VUndefined | VNull | VBool bool | VNumber jsnum | VString string
  | VObject "(string \<times> jsvalue) list"

datatype jstype = TUndefined | TObject | TBoolean | TNumber | TString

fun typeof :: "jsvalue \<Rightarrow> jstype" where
  "typeof VUndefined = TUndefined"
| "typeof VNull = TObject"
| "typeof (VBool b) = TBoolean"
| "typeof (VNumber n) = TNumber"
| "typeof (VString x) = TString"
| "typeof (VObject kvs) = TObject"

fun truthy :: "jsvalue \<Rightarrow> bool" where
  "truthy VUndefined = False"
| "truthy VNull = False"
| "truthy (VBool b) = b"
| "truthy (VNumber NaN) = False"
| "truthy (VNumber (Infinity b)) = True"
| "truthy (VNumber (Finite q)) = (q \<noteq> 0)"
| "truthy (VString x) = (x \<noteq> [])"
| "truthy (VObject kvs) = True"

text \<open>Reading a property: a missing one, and any of these on a primitive, is \<^verbatim>\<open>undefined\<close>.\<close>

fun field :: "jsvalue \<Rightarrow> string \<Rightarrow> jsvalue" where
  "field (VObject kvs) k = (case map_of kvs k of Some v \<Rightarrow> v | None \<Rightarrow> VUndefined)"
| "field v k = VUndefined"

text \<open>
  What \<^verbatim>\<open>set\<close> uses and the sources do not hold is taken as a parameter:
  \<^verbatim>\<open>utils.isNumber\<close>, \<^verbatim>\<open>utils.isBrowser\<close>, whether \<^verbatim>\<open>global.Worker\<close> and
  \<^verbatim>\<open>global.postMessage\<close> are functions, \<^verbatim>\<open>network.set\<close>, the signature cache's
  \<^verbatim>\<open>resize\<close>, and the platform's conversion to a number (the unary \<^verbatim>\<open>+\<close> of the
  constructor). The host is the same at every call.
\<close>

record ('n, 'c) host =
  isNumber :: "jsvalue \<Rightarrow> bool"
  isBrowser :: bool
  hasWorker :: bool
  hasPostMessage :: bool
  network_set :: "jsvalue \<Rightarrow> 'n \<Rightarrow> 'n"
  resize :: "jsvalue \<Rightarrow> 'c \<Rightarrow> 'c"
  toNumber :: "jsvalue \<Rightarrow> jsnum"

record ('n, 'c) environment =
  network :: 'n
  useWorkers :: bool
  pool_size :: jsvalue
  pool_timeout :: jsvalue
  sigcache :: 'c

text \<open>The first two statements of \<^verbatim>\<open>set\<close>: the object whose fields are read.\<close>

definition options_of :: "jsvalue \<Rightarrow> jsvalue" where
  "options_of options =
     (let o1 = (if typeof options = TString then VObject [(''network'', options)] else options)
      in if truthy o1 then o1 else VObject [])"

definition env_set :: "('n, 'c) host \<Rightarrow> jsvalue \<Rightarrow> ('n, 'c) environment \<Rightarrow> ('n, 'c) environment" where
  "env_set H options e =
     (let opts = options_of options;
          e1 = (if truthy (field opts ''network'')
                then e\<lparr>network := network_set H (field opts ''network'') (network e)\<rparr> else e);
          e2 = (case field opts ''useWorkers'' of VBool b \<Rightarrow> e1\<lparr>useWorkers := b\<rparr> | _ \<Rightarrow> e1);
          e3 = (if isNumber H (field opts ''maxWorkers'')
                then e2\<lparr>pool_size := field opts ''maxWorkers''\<rparr> else e2);
          e4 = (if isNumber H (field opts ''workerTimeout'')
                then e3\<lparr>pool_timeout := field opts ''workerTimeout''\<rparr> else e3);
          e5 = (if isBrowser H \<and> useWorkers e4
                then e4\<lparr>useWorkers := (hasWorker H \<or> hasPostMessage H)\<rparr> else e4)
      in if isNumber H (field opts ''sigcacheSize'')
         then e5\<lparr>sigcache := resize H (field opts ''sigcacheSize'') (sigcache e5)\<rparr> else e5)"

text \<open>
  The flag \<^verbatim>\<open>set\<close> leaves behind, from the value \<open>u\<close> it has after the assignment from
  the options: in a browser a true flag becomes whether the host can run workers.
\<close>

definition worker_gate :: "('n, 'c) host \<Rightarrow> bool \<Rightarrow> bool" where
  "worker_gate H u = (if isBrowser H \<and> u then hasWorker H \<or> hasPostMessage H else u)"

text \<open>
  The constructor (lines 211 to 228). It makes the objects the environment holds (here
  \<open>fresh\<close>: the network registry, the worker pool with its own defaults, the signature
  cache), sets \<^verbatim>\<open>useWorkers\<close> to false, and calls \<^verbatim>\<open>set\<close> with options read from the
  process environment, whose variables are strings or \<^verbatim>\<open>undefined\<close>.
\<close>

record process_env =
  BCOIN_NETWORK :: jsvalue
  BCOIN_USE_WORKERS :: jsvalue
  BCOIN_MAX_WORKERS :: jsvalue
  BCOIN_WORKER_TIMEOUT :: jsvalue
  BCOIN_SIGCACHE_SIZE :: jsvalue

definition constructor_options :: "('n, 'c) host \<Rightarrow> process_env \<Rightarrow> jsvalue" where
  "constructor_options H penv =
     VObject
       [(''network'',
           if truthy (BCOIN_NETWORK penv) then BCOIN_NETWORK penv else VString ''main''),
        (''useWorkers'', VBool (toNumber H (BCOIN_USE_WORKERS penv) = Finite 1)),
        (''maxWorkers'', VNumber (toNumber H (BCOIN_MAX_WORKERS penv))),
        (''workerTimeout'', VNumber (toNumber H (BCOIN_WORKER_TIMEOUT penv))),
        (''sigcacheSize'', VNumber (toNumber H (BCOIN_SIGCACHE_SIZE penv)))]"

definition Environment ::
  "('n, 'c) host \<Rightarrow> process_env \<Rightarrow> ('n, 'c) environment \<Rightarrow> ('n, 'c) environment" where
  "Environment H penv fresh = env_set H (constructor_options H penv) (fresh\<lparr>useWorkers := False\<rparr>)"

text \<open>The environment after the constructor and a sequence of calls of \<^verbatim>\<open>set\<close>, oldest first.\<close>

definition reached ::
  "('n, 'c) host \<Rightarrow> process_env \<Rightarrow> ('n, 'c) environment \<Rightarrow> jsvalue list \<Rightarrow> ('n, 'c) environment" where
  "reached H penv fresh history = fold (env_set H) history (Environment H penv fresh)"

text \<open>
  Example hosts: a finite-number test for \<^verbatim>\<open>isNumber\<close> and a conversion that knows a few
  strings; a browser that has no workers.
\<close>

fun finite_number :: "jsvalue \<Rightarrow> bool" where
  "finite_number (VNumber (Finite q)) = True"
| "finite_number v = False"

fun sample_number :: "jsvalue \<Rightarrow> jsnum" where
  "sample_number (VNumber n) = n"
| "sample_number (VString x) =
     (if x = ''1'' then Finite 1 else if x = ''8'' then Finite 8 else NaN)"
| "sample_number v = NaN"

definition node_host :: "(jsvalue, jsvalue) host" where
  "node_host = \<lparr>isNumber = finite_number, isBrowser = False, hasWorker = False,
     hasPostMessage = False, network_set = (\<lambda>v n. v), resize = (\<lambda>v c. v),
     toNumber = sample_number\<rparr>"

definition sample_env :: process_env where
  "sample_env = \<lparr>BCOIN_NETWORK = VUndefined, BCOIN_USE_WORKERS = VString ''1'',
     BCOIN_MAX_WORKERS = VString ''8'', BCOIN_WORKER_TIMEOUT = VUndefined,
     BCOIN_SIGCACHE_SIZE = VUndefined\<rparr>"

definition bare_browser :: "(jsvalue, jsvalue) host" where
  "bare_browser = node_host\<lparr>isBrowser := True\<rparr>"

definition sample_options :: jsvalue where
  "sample_options = VObject [(''maxWorkers'', VString ''4''), (''useWorkers'', VNumber (Finite 1))]"

definition env0 :: "(jsvalue, jsvalue) environment" where
  "env0 = \<lparr>network = VString ''main'', useWorkers = True, pool_size = VNumber (Finite 6),
     pool_timeout = VNumber (Finite 60000), sigcache = VNumber (Finite 0)\<rparr>"

section \<open>The worker jobs (jobs.js)\<close>

datatype js_error = TypeError | Thrown nat

record ('s, 'w) input =
  script :: 's
  witness :: 'w

record ('s, 'w) mtx =
  inputs :: "('s, 'w) input list"

text \<open>The values a job passes on to a method, in call order.\<close>

datatype ('s, 'w) arg = ArgTx "('s, 'w) mtx" | ArgNumber nat | ArgBuffer "nat list" | ArgType nat

text \<open>
  \<^verbatim>\<open>MTX#signInput\<close> is not among the sources: it is a parameter, a method that gets the
  transaction as \<^verbatim>\<open>this\<close> and its arguments by position, and throws or returns a result
  (tested for truthiness) and the transaction as it left it.
\<close>

type_synonym ('s, 'w) sign_method =
  "('s, 'w) mtx \<Rightarrow> ('s, 'w) arg list \<Rightarrow> js_error + bool \<times> ('s, 'w) mtx"

text \<open>\<^verbatim>\<open>[input.script, input.witness]\<close> of \<^verbatim>\<open>tx.inputs[index]\<close>, or absent.\<close>

definition signed_pair ::
  "bool \<Rightarrow> ('s, 'w) mtx \<Rightarrow> nat \<Rightarrow> js_error + ('s \<times> 'w) option" where
  "signed_pair result tx index =
     (if result = False then Inr None
      else if index < length (inputs tx)
      then Inr (Some (script (inputs tx ! index), witness (inputs tx ! index)))
      else Inl TypeError)"

text \<open>\<^verbatim>\<open>jobs.signInput\<close>: the call in the source is \<^verbatim>\<open>tx.signInput(tx, index, key, type)\<close>.\<close>

definition jobs_signInput ::
  "('s, 'w) sign_method \<Rightarrow> ('s, 'w) mtx \<Rightarrow> nat \<Rightarrow> nat list \<Rightarrow> nat \<Rightarrow> js_error + ('s \<times> 'w) option" where
  "jobs_signInput signInput tx index key type =
     (case signInput tx [ArgTx tx, ArgNumber index, ArgBuffer key, ArgType type] of
        Inl e \<Rightarrow> Inl e
      | Inr (result, tx') \<Rightarrow> signed_pair result tx' index)"

text \<open>
  The job as the spec documents it (4.3), for comparison: the signing primitive is called
  with (inputIndex, privateKey, sighashType).
\<close>

definition documented_signInput ::
  "('s, 'w) sign_method \<Rightarrow> ('s, 'w) mtx \<Rightarrow> nat \<Rightarrow> nat list \<Rightarrow> nat \<Rightarrow> js_error + ('s \<times> 'w) option" where
  "documented_signInput signInput tx index key type =
     (case signInput tx [ArgNumber index, ArgBuffer key, ArgType type] of
        Inl e \<Rightarrow> Inl e
      | Inr (result, tx') \<Rightarrow> signed_pair result tx' index)"

text \<open>
  A signing method with the positional signature (index, key, type) of \<^verbatim>\<open>@see
  MTX#signInput\<close>: it needs a number first and a buffer second, and then writes the key
  into the input's script. Anything else in those places is a type error.
\<close>

fun sample_signInput :: "(nat list, nat list list) sign_method" where
  "sample_signInput tx (ArgNumber i # ArgBuffer k # ArgType t # rest) =
     (if i < length (inputs tx)
      then Inr (True, tx\<lparr>inputs := (inputs tx)[i := \<lparr>script = k, witness = [[t]]\<rparr>]\<rparr>)
      else Inr (False, tx))"
| "sample_signInput tx args = Inl TypeError"

definition sample_tx :: "(nat list, nat list list) mtx" where
  "sample_tx = \<lparr>inputs = [\<lparr>script = [], witness = []\<rparr>]\<rparr>"

text \<open>
  \<^verbatim>\<open>jobs.scrypt\<close>: the key-derivation function (crypto/scrypt) is not among the sources;
  it is a parameter.
\<close>

definition jobs_scrypt ::
  "(string \<Rightarrow> string \<Rightarrow> nat \<Rightarrow> nat \<Rightarrow> nat \<Rightarrow> nat \<Rightarrow> 'r) \<Rightarrow> string \<Rightarrow> string \<Rightarrow> nat \<Rightarrow> nat \<Rightarrow> nat \<Rightarrow> nat \<Rightarrow> 'r" where
  "jobs_scrypt scrypt passwd salt N r p len = scrypt passwd salt N r p len"

section \<open>Properties of the lifecycle controller\<close>

subsection \<open>The example runs\<close>

lemma opening_example_run: "run [Open Returns] AsyncObject = Some opening_example"
  by code_simp

lemma opened_example_run: "run opened_run AsyncObject = Some opened_example"
  by code_simp

lemma closing_example_run: "run (opened_run @ [Close Returns]) AsyncObject = Some closing_example"
  by code_simp

lemma closing_failed_example_run:
  "run (opened_run @ [Close Returns, HookSettled 1 (Some (HookError 1))]) AsyncObject
     = Some closing_failed_example"
  by code_simp

lemma example_states:
  "state_of opening_example = Some Opening"
  "state_of opened_example = Some Opened"
  "state_of closing_example = Some Closing"
  "state_of closing_failed_example = Some Closing"
  by code_simp+

subsection \<open>The states of the spec\<close>


lemma state_of_Idle:
  "state_of s = Some Idle \<longleftrightarrow> closing s = False \<and> loading s = False \<and> loaded s = False"
  by (auto simp: state_of_def split: bool.splits)

lemma state_of_Opening:
  "state_of s = Some Opening \<longleftrightarrow> loading s \<and> closing s = False \<and> loaded s = False"
  by (auto simp: state_of_def split: bool.splits)

lemma state_of_Opened:
  "state_of s = Some Opened \<longleftrightarrow> loaded s \<and> closing s = False \<and> loading s = False"
  by (auto simp: state_of_def split: bool.splits)

lemma exclusive_state_of: "exclusive s \<Longrightarrow> state_of s \<noteq> None"
  by (auto simp: exclusive_def state_of_def split: bool.splits)

subsection \<open>Calls that are refused or return at once\<close>

lemma open_start_closing:
  "closing s \<Longrightarrow> open_start h s = s\<lparr>calls := calls s @
     [\<lparr>kind = OpenCall, holds = False,
       pc = Settled (Rejected (AssertionError ''Cannot open while closing.''))\<rparr>]\<rparr>"
  by (simp add: open_start_def new_frame_def)

lemma close_start_loading:
  "loading s \<Longrightarrow> close_start h s = s\<lparr>calls := calls s @
     [\<lparr>kind = CloseCall, holds = False,
       pc = Settled (Rejected (AssertionError ''Cannot close while loading.''))\<rparr>]\<rparr>"
  by (simp add: close_start_def new_frame_def)

lemma close_start_not_loaded:
  assumes "loading s = False" and "loaded s = False"
  shows "close_is_noop h s"
  using assms by (simp add: close_is_noop_def close_start_def new_frame_def settle_def set_pc_def)

text \<open>
  Claim C4. Calling \<^verbatim>\<open>open()\<close> while the component is closing, or \<^verbatim>\<open>close()\<close> while it is
  loading, fails at once with the assertion's error (the spec's usage error): the call's
  promise is rejected in the call itself, and nothing else changes. The flags, the lock
  (never asked), the listeners, the other calls and the trace (no hook, no notification)
  are those of the state before, so the transition in flight is untouched.
\<close>

theorem opposite_call_fails_at_once:
  "(closing s \<longrightarrow>
      step (Open h) s = Some (s\<lparr>calls := calls s @
        [\<lparr>kind = OpenCall, holds = False,
          pc = Settled (Rejected (AssertionError ''Cannot open while closing.''))\<rparr>]\<rparr>))
   \<and> (loading s \<longrightarrow>
      step (Close h) s = Some (s\<lparr>calls := calls s @
        [\<lparr>kind = CloseCall, holds = False,
          pc = Settled (Rejected (AssertionError ''Cannot close while loading.''))\<rparr>]\<rparr>))"
  by (simp add: open_start_closing close_start_loading)

theorem opposite_call_fails_at_once_witness:
  "closing closing_example
   \<and> step (Open Returns) closing_example = Some (closing_example\<lparr>calls := calls closing_example @
        [\<lparr>kind = OpenCall, holds = False,
          pc = Settled (Rejected (AssertionError ''Cannot open while closing.''))\<rparr>]\<rparr>)
   \<and> loading opening_example
   \<and> step (Close Returns) opening_example = Some (opening_example\<lparr>calls := calls opening_example @
        [\<lparr>kind = CloseCall, holds = False,
          pc = Settled (Rejected (AssertionError ''Cannot close while loading.''))\<rparr>]\<rparr>)"
proof -
  have c: "closing closing_example" by code_simp
  have l: "loading opening_example" by code_simp
  from c l opposite_call_fails_at_once [of closing_example Returns]
    opposite_call_fails_at_once [of opening_example Returns]
  show ?thesis by blast
qed

text \<open>
  Claim C7, as amended. For every component that is neither loaded nor loading (never
  opened, Idle again, or Closing), \<^verbatim>\<open>close()\<close> returns successfully without invoking the
  teardown hook and without changing the component's state. The claim as stated covers
  every state other than Open; in state Opening the call fails with the assertion's
  error instead (the counterexample).
\<close>

theorem close_when_not_loaded:
  assumes "loading s = False" and "loaded s = False"
  shows "close_is_noop h s"
  using assms by (rule close_start_not_loaded)

theorem close_when_not_loaded_witness:
  "loading AsyncObject = False \<and> loaded AsyncObject = False \<and> close_is_noop Returns AsyncObject
   \<and> loading closing_example = False \<and> loaded closing_example = False
   \<and> close_is_noop Returns closing_example"
proof -
  have a: "loading AsyncObject = False" "loaded AsyncObject = False" by code_simp+
  have b: "loading closing_example = False" "loaded closing_example = False" by code_simp+
  from close_when_not_loaded [OF a, of Returns] close_when_not_loaded [OF b, of Returns] a b
  show ?thesis by simp
qed

theorem close_while_opening_counterexample:
  "state_of opening_example = Some Opening
   \<and> close_is_noop Returns opening_example = False
   \<and> map_option outcomes (step (Close Returns) opening_example)
      = Some [AtHook, Settled (Rejected (AssertionError ''Cannot close while loading.''))]"
  by code_simp

subsection \<open>What notifying listeners leaves alone\<close>

lemma resolve_frame [simp]:
  "loading (resolve c a s) = loading s"
  "closing (resolve c a s) = closing s"
  "loaded (resolve c a s) = loaded s"
  "locker (resolve c a s) = locker s"
  "listeners (resolve c a s) = listeners s"
  "trace (resolve c a s) = trace s"
  "length (calls (resolve c a s)) = length (calls s)"
  by (simp_all add: resolve_def set_pc_def)

lemma invoke_frame [simp]:
  "loading (invoke ev a l s) = loading s"
  "closing (invoke ev a l s) = closing s"
  "loaded (invoke ev a l s) = loaded s"
  "locker (invoke ev a l s) = locker s"
  "listeners (invoke ev a l s) = listeners s"
  "length (calls (invoke ev a l s)) = length (calls s)"
  by (cases l; simp)+

lemma notify_frame [simp]:
  "loading (fold (invoke ev a) ls s) = loading s"
  "closing (fold (invoke ev a) ls s) = closing s"
  "loaded (fold (invoke ev a) ls s) = loaded s"
  "locker (fold (invoke ev a) ls s) = locker s"
  "listeners (fold (invoke ev a) ls s) = listeners s"
  "length (calls (fold (invoke ev a) ls s)) = length (calls s)"
  by (induction ls arbitrary: s; simp)+

lemma resolve_other:
  "pc (calls s ! i) \<noteq> AtEvent None \<Longrightarrow> calls (resolve c a s) ! i = calls s ! i"
  by (cases "i = c") (auto simp: resolve_def set_pc_def)

lemma invoke_other:
  "pc (calls s ! i) \<noteq> AtEvent None \<Longrightarrow> calls (invoke ev a l s) ! i = calls s ! i"
  by (cases l) (simp_all add: resolve_other)

lemma notify_other:
  "pc (calls s ! i) \<noteq> AtEvent None \<Longrightarrow> calls (fold (invoke ev a) ls s) ! i = calls s ! i"
  by (induction ls arbitrary: s) (simp_all add: invoke_other)

lemma emit_thrown:
  "snd (emit ev a s) = (if ev = ErrorEv \<and> listeners s ev = [] then Some (thrown a) else None)"
  by (auto simp: emit_def Let_def)

lemma emit_frame [simp]:
  "loading (fst (emit ev a s)) = loading s"
  "closing (fst (emit ev a s)) = closing s"
  "loaded (fst (emit ev a s)) = loaded s"
  "locker (fst (emit ev a s)) = locker s"
  "length (calls (fst (emit ev a s))) = length (calls s)"
  by (simp_all add: emit_def Let_def)

lemma emit_other:
  "pc (calls s ! i) \<noteq> AtEvent None \<Longrightarrow> calls (fst (emit ev a s)) ! i = calls s ! i"
  by (simp add: emit_def Let_def notify_other)

lemma priv_error_thrown:
  "ev \<noteq> ErrorEv \<Longrightarrow> snd (priv_error ev e s)
     = (if listeners s ErrorEv = [] then Some (thrown (ErrorVal e)) else None)"
  by (simp add: priv_error_def Let_def emit_thrown)

lemma is_Error_truthy: "is_Error e \<Longrightarrow> is_truthy e"
  by (cases e) simp_all

lemma priv_error_frame [simp]:
  "loading (fst (priv_error ev e s)) = loading s"
  "closing (fst (priv_error ev e s)) = closing s"
  "loaded (fst (priv_error ev e s)) = loaded s"
  "locker (fst (priv_error ev e s)) = locker s"
  "length (calls (fst (priv_error ev e s))) = length (calls s)"
  by (simp_all add: priv_error_def Let_def)

lemma unlock_frame [simp]:
  "loading (unlock s) = loading s"
  "closing (unlock s) = closing s"
  "loaded (unlock s) = loaded s"
  "length (calls (unlock s)) = length (calls s)"
  by (simp_all add: unlock_def set_pc_def split: option.split list.split)

lemma release_frame [simp]:
  "loading (release c s) = loading s"
  "closing (release c s) = closing s"
  "loaded (release c s) = loaded s"
  "length (calls (release c s)) = length (calls s)"
  by (simp_all add: release_def)

lemma settle_frame [simp]:
  "loading (settle c out s) = loading s"
  "closing (settle c out s) = closing s"
  "loaded (settle c out s) = loaded s"
  "locker (settle c out s) = locker s"
  "listeners (settle c out s) = listeners s"
  "trace (settle c out s) = trace s"
  "length (calls (settle c out s)) = length (calls s)"
  by (simp_all add: settle_def set_pc_def)

lemma settle_pc [simp]:
  "c < length (calls s) \<Longrightarrow> pc (calls (settle c out s) ! c) = Settled out"
  by (simp add: settle_def set_pc_def)


text \<open>
  How the call ends on the failure branch: rejected with the value caught, or, when
  nothing observes \<^verbatim>\<open>'error'\<close>, with what \<^verbatim>\<open>emit\<close> throws.
\<close>

lemma close_finish_outcome:
  assumes "c < length (calls s)" and "is_truthy e"
  shows "pc (calls (close_finish c (Some e) s) ! c)
     = Settled (Rejected (if listeners s ErrorEv = [] then thrown (ErrorVal e) else e))"
proof -
  obtain s1 t where p: "priv_error CloseEv e (s\<lparr>closing := False\<rparr>) = (s1, t)"
    by (cases "priv_error CloseEv e (s\<lparr>closing := False\<rparr>)")
  then have s1: "s1 = fst (priv_error CloseEv e (s\<lparr>closing := False\<rparr>))"
    and t: "t = snd (priv_error CloseEv e (s\<lparr>closing := False\<rparr>))" by simp_all
  have len: "c < length (calls s1)" using assms(1) by (simp add: s1)
  have "t = (if listeners s ErrorEv = [] then Some (thrown (ErrorVal e)) else None)"
    using priv_error_thrown [of CloseEv e "s\<lparr>closing := False\<rparr>"] by (simp add: t)
  then show ?thesis using p len assms(2) by (simp add: close_finish_def)
qed




text \<open>
  What the hook fails with decides the branch. A hook rejected with a falsy value takes
  the success branch: the \<^verbatim>\<open>close()\<close> is fulfilled and \<^verbatim>\<open>'close'\<close> is emitted, an
  \<^verbatim>\<open>open()\<close> leaves the component Open. A hook rejected with a truthy value that is no
  Error object, with nothing observing \<^verbatim>\<open>'error'\<close>, has its call rejected with the
  emitter's own error.
\<close>

lemma other_rejections:
  "map_option state_of (run (opened_run @ [Close Returns, HookSettled 1 (Some (Falsy 0)), Tick 1]) AsyncObject)
     = Some (Some Idle)
   \<and> map_option outcomes (run (opened_run @ [Close Returns, HookSettled 1 (Some (Falsy 0)), Tick 1]) AsyncObject)
     = Some [Settled (Resolved Undefined), Settled (Resolved Undefined)]
   \<and> map_option state_of (run [Open Returns, HookSettled 0 (Some (Falsy 0)), Tick 0] AsyncObject)
     = Some (Some Opened)
   \<and> map_option outcomes (run [Open Returns, HookSettled 0 (Some (Falsy 0)), Tick 0] AsyncObject)
     = Some [Settled (Resolved Undefined)]
   \<and> map_option outcomes (run (opened_run @ [Close Returns, HookSettled 1 (Some (Truthy 0)), Tick 1]) AsyncObject)
     = Some [Settled (Resolved Undefined), Settled (Rejected Unspecified)]
   \<and> map_option outcomes
       (run (On ErrorEv 0 # opened_run @ [Close Returns, HookSettled 1 (Some (Truthy 0)), Tick 1]) AsyncObject)
     = Some [Settled (Resolved Undefined), Settled (Rejected (Truthy 0))]"
  by code_simp

subsection \<open>A failed open and the calls waiting for it\<close>

text \<open>
  Claim C2 (the code departs from it). An \<^verbatim>\<open>open()\<close> made while another is in flight
  waits on the promise of \<^verbatim>\<open>_onOpen\<close>, whose \<^verbatim>\<open>resolve\<close> is the listener registered for
  \<^verbatim>\<open>'open'\<close>. When the hook fails, \<^verbatim>\<open>_error\<close> calls that listener with the error: the
  waiting call's promise is resolved with the error as its value, not rejected with it.
  Only the call that ran the hook is rejected.
\<close>

theorem waiter_resolved_with_error:
  "map_option outcomes (run [Open Returns, Open Returns] AsyncObject) = Some [AtHook, AtEvent None]
   \<and> map_option outcomes (run failed_open_with_waiter AsyncObject)
      = Some [Settled (Rejected (HookError 1)), Settled (Resolved (ErrorVal (HookError 1)))]"
  by code_simp

subsection \<open>Components with a lock\<close>

text \<open>
  Claim C5 (the code departs from it). With a lock, \<^verbatim>\<open>open()\<close> tests the flags before it
  waits for the lock and sets \<^verbatim>\<open>loading\<close> only after. Two calls made from Idle in the same
  turn both pass the tests; the second gets the lock when the first has finished and
  invokes the initialization hook again, with \<^verbatim>\<open>loaded\<close> already true: two invocations
  for one transition from Idle to Open, and a state with two flags set.
\<close>

theorem double_open_with_lock:
  "map_option state_of (run [Open Returns, Open Returns] with_locker) = Some (Some Idle)
   \<and> map_option inits (run double_open_run with_locker) = Some 2
   \<and> map_option state_of (run double_open_run with_locker) = Some None
   \<and> map_option outcomes (run double_open_run with_locker) = Some [Settled (Resolved Undefined), AtHook]"
  by code_simp

text \<open>
  Claim C6 (the code departs from it). With a lock and no observer of \<^verbatim>\<open>'error'\<close>, the
  failure branch of \<^verbatim>\<open>open()\<close> leaves the state Idle and rejects the call, but
  \<^verbatim>\<open>emit('error', err)\<close> throws inside \<^verbatim>\<open>_error\<close> before \<^verbatim>\<open>unlock()\<close> is reached: the
  lock stays held. A subsequent \<^verbatim>\<open>open()\<close> waits for the lock, is never granted it, and
  never invokes the hook.
\<close>

theorem failed_open_keeps_lock:
  "map_option state_of (run failed_open_with_lock with_locker) = Some (Some Idle)
   \<and> map_option outcomes (run failed_open_with_lock with_locker) = Some [Settled (Rejected (HookError 1))]
   \<and> map_option locker (run failed_open_with_lock with_locker) = Some (Some \<lparr>busy = True, jobs = []\<rparr>)
   \<and> map_option outcomes (run (failed_open_with_lock @ [Open Returns]) with_locker)
       = Some [Settled (Rejected (HookError 1)), AtLock False]
   \<and> map_option inits (run (failed_open_with_lock @ [Open Returns]) with_locker) = Some 1
   \<and> run (failed_open_with_lock @ [Open Returns, Granted 1 Returns]) with_locker = None"
  by code_simp

text \<open>
  The same claim fails in a second way with a lock, whatever observes \<^verbatim>\<open>'error'\<close>: when
  the hook of the second of two overlapping calls fails, the component is left Open, and
  a subsequent \<^verbatim>\<open>open()\<close> returns at once.
\<close>

lemma failed_second_open_stays_open:
  "map_option state_of (run failed_second_open with_locker) = Some (Some Opened)
   \<and> map_option outcomes (run failed_second_open with_locker)
       = Some [Settled (Resolved Undefined), Settled (Rejected (HookError 1))]
   \<and> map_option inits (run (failed_second_open @ [Open Returns, Tick 2]) with_locker) = Some 2
   \<and> map_option outcomes (run (failed_second_open @ [Open Returns, Tick 2]) with_locker)
       = Some [Settled (Resolved Undefined), Settled (Rejected (HookError 1)),
               Settled (Resolved Undefined)]"
  by code_simp

text \<open>
  Claim C10 (the code departs from it, by the defect shown under claim C5). A component
  with a lock, constructed with all flags false, takes two calls of \<^verbatim>\<open>open()\<close> in the
  same turn. When the first call has finished the state is Open and the flags exclude
  each other. The next step of \<^verbatim>\<open>open()\<close>, the second call resuming with the lock, sets
  \<^verbatim>\<open>loading\<close> while \<^verbatim>\<open>loaded\<close> is true: the step does not preserve the exclusion, and
  the state reached has two flags set and encodes none of the four states.
\<close>

theorem flags_overlap_with_lock:
  "map_option state_of (run [] with_locker) = Some (Some Idle)
   \<and> map_option state_of (run first_open_done with_locker) = Some (Some Opened)
   \<and> map_option exclusive (run first_open_done with_locker) = Some True
   \<and> map_option exclusive (run (first_open_done @ [Granted 1 Returns]) with_locker) = Some False
   \<and> map_option loading (run (first_open_done @ [Granted 1 Returns]) with_locker) = Some True
   \<and> map_option closing (run (first_open_done @ [Granted 1 Returns]) with_locker) = Some False
   \<and> map_option loaded (run (first_open_done @ [Granted 1 Returns]) with_locker) = Some True"
  by code_simp

subsection \<open>Components without a lock: the flags exclude each other\<close>

lemma filter_update_same:
  "c < length xs \<Longrightarrow> P y = P (xs ! c) \<Longrightarrow> g y = g (xs ! c)
     \<Longrightarrow> map g (filter P (xs[c := y])) = map g (filter P xs)"
proof (induction xs arbitrary: c)
  case Nil
  then show ?case by simp
next
  case (Cons x xs)
  then show ?case by (cases c) auto
qed

lemma filter_update_count:
  "c < length xs \<Longrightarrow> P y = P (xs ! c) \<Longrightarrow> length (filter P (xs[c := y])) = length (filter P xs)"
  using filter_update_same [of c xs P y "\<lambda>_. ()"] by (metis length_map)

lemma filter_update_drop:
  "c < length xs \<Longrightarrow> P (xs ! c) \<Longrightarrow> \<not> P y \<Longrightarrow> length (filter P xs) \<le> 1
     \<Longrightarrow> filter P (xs[c := y]) = []"
proof (induction xs arbitrary: c)
  case Nil
  then show ?case by simp
next
  case (Cons x xs)
  show ?case
  proof (cases c)
    case 0
    with Cons.prems show ?thesis by (auto simp: filter_empty_conv)
  next
    case (Suc d)
    with Cons.prems have "\<not> P x"
      by (auto simp: filter_empty_conv split: if_splits)
    with Cons Suc show ?thesis by auto
  qed
qed

lemma filter_member:
  "c < length xs \<Longrightarrow> P (xs ! c) \<Longrightarrow> g (xs ! c) \<in> set (map g (filter P xs))"
  by (auto simp: in_set_conv_nth)

lemma transit_fields [simp]:
  "transit (s\<lparr>loading := b\<rparr>) = transit s"
  "transit (s\<lparr>closing := b\<rparr>) = transit s"
  "transit (s\<lparr>loaded := b\<rparr>) = transit s"
  "transit (s\<lparr>listeners := ls\<rparr>) = transit s"
  "transit (s\<lparr>trace := tr\<rparr>) = transit s"
  by (simp_all add: transit_def)

lemma waiting_fields [simp]:
  "waiting (s\<lparr>loading := b\<rparr>) = waiting s"
  "waiting (s\<lparr>closing := b\<rparr>) = waiting s"
  "waiting (s\<lparr>loaded := b\<rparr>) = waiting s"
  "waiting (s\<lparr>listeners := ls\<rparr>) = waiting s"
  "waiting (s\<lparr>trace := tr\<rparr>) = waiting s"
  by (simp_all add: waiting_def)

lemma new_frame_frame [simp]:
  "loading (new_frame k p s) = loading s"
  "closing (new_frame k p s) = closing s"
  "loaded (new_frame k p s) = loaded s"
  "locker (new_frame k p s) = locker s"
  "listeners (new_frame k p s) = listeners s"
  "trace (new_frame k p s) = trace s"
  "calls (new_frame k p s) = calls s @ [\<lparr>kind = k, holds = False, pc = p\<rparr>]"
  by (simp_all add: new_frame_def)

lemma set_pc_frame [simp]:
  "loading (set_pc c p s) = loading s"
  "closing (set_pc c p s) = closing s"
  "loaded (set_pc c p s) = loaded s"
  "locker (set_pc c p s) = locker s"
  "listeners (set_pc c p s) = listeners s"
  "trace (set_pc c p s) = trace s"
  "length (calls (set_pc c p s)) = length (calls s)"
  by (simp_all add: set_pc_def)

lemma transit_new_frame [simp]:
  "transit (new_frame k p s) = transit s @ (if in_transition p then [k] else [])"
  by (simp add: transit_def)

lemma waiting_new_frame [simp]:
  "waiting (new_frame k p s) = waiting s + (if at_lock p then 1 else 0)"
  by (simp add: waiting_def)

lemma transit_set_pc_same:
  "c < length (calls s) \<Longrightarrow> in_transition p = in_transition (pc (calls s ! c))
     \<Longrightarrow> transit (set_pc c p s) = transit s"
  by (simp add: transit_def set_pc_def filter_update_same)

lemma waiting_set_pc_same:
  "c < length (calls s) \<Longrightarrow> at_lock p = at_lock (pc (calls s ! c))
     \<Longrightarrow> waiting (set_pc c p s) = waiting s"
  by (simp add: waiting_def set_pc_def filter_update_count)

lemma transit_set_pc_drop:
  "c < length (calls s) \<Longrightarrow> in_transition (pc (calls s ! c)) \<Longrightarrow> \<not> in_transition p
     \<Longrightarrow> length (transit s) \<le> 1 \<Longrightarrow> transit (set_pc c p s) = []"
  by (simp add: transit_def set_pc_def filter_update_drop)

lemma transit_member:
  "c < length (calls s) \<Longrightarrow> in_transition (pc (calls s ! c)) \<Longrightarrow> kind (calls s ! c) \<in> set (transit s)"
  unfolding transit_def by (rule filter_member)

lemma waiting_member:
  "c < length (calls s) \<Longrightarrow> at_lock (pc (calls s ! c)) \<Longrightarrow> 0 < waiting s"
  using nth_mem [of c "calls s"] by (auto simp: waiting_def filter_empty_conv)

lemma resolve_views [simp]:
  "transit (resolve c a s) = transit s"
  "waiting (resolve c a s) = waiting s"
  by (simp_all add: resolve_def transit_set_pc_same waiting_set_pc_same)

lemma invoke_views [simp]:
  "transit (invoke ev a l s) = transit s"
  "waiting (invoke ev a l s) = waiting s"
  by (cases l; simp)+

lemma notify_views [simp]:
  "transit (fold (invoke ev a) ls s) = transit s"
  "waiting (fold (invoke ev a) ls s) = waiting s"
  by (induction ls arbitrary: s; simp)+

lemma emit_views [simp]:
  "transit (fst (emit ev a s)) = transit s"
  "waiting (fst (emit ev a s)) = waiting s"
  by (simp_all add: emit_def Let_def)

lemma priv_error_views [simp]:
  "transit (fst (priv_error ev e s)) = transit s"
  "waiting (fst (priv_error ev e s)) = waiting s"
  by (simp_all add: priv_error_def Let_def)

lemma priv_error_other:
  "pc (calls s ! i) \<noteq> AtEvent None \<Longrightarrow> calls (fst (priv_error ev e s)) ! i = calls s ! i"
  by (simp add: priv_error_def Let_def emit_other notify_other)

lemma release_no_locker: "locker s = None \<Longrightarrow> release c s = s"
  by (simp add: release_def unlock_def)

lemma open_locked_eq:
  "open_locked h c s =
     (case h of
        Throws e \<Rightarrow> set_pc c (AtTick (Some e))
          ((fst (emit Preopen Undefined s))
             \<lparr>loading := True, trace := trace (fst (emit Preopen Undefined s)) @ [InitHook]\<rparr>)
      | Returns \<Rightarrow> set_pc c AtHook
          ((fst (emit Preopen Undefined s))
             \<lparr>loading := True, trace := trace (fst (emit Preopen Undefined s)) @ [InitHook]\<rparr>))"
proof (cases "emit Preopen Undefined s")
  case (Pair s1 t)
  moreover have "t = None" using Pair emit_thrown [of Preopen Undefined s] by simp
  ultimately show ?thesis by (cases h) (simp_all add: open_locked_def Let_def)
qed

lemma close_locked_eq:
  "close_locked h c s =
     (case h of
        Throws e \<Rightarrow> set_pc c (AtTick (Some e))
          ((fst (emit Preclose Undefined s))
             \<lparr>closing := True, loaded := False,
                trace := trace (fst (emit Preclose Undefined s)) @ [TeardownHook]\<rparr>)
      | Returns \<Rightarrow> set_pc c AtHook
          ((fst (emit Preclose Undefined s))
             \<lparr>closing := True, loaded := False,
                trace := trace (fst (emit Preclose Undefined s)) @ [TeardownHook]\<rparr>))"
proof (cases "emit Preclose Undefined s")
  case (Pair s1 t)
  moreover have "t = None" using Pair emit_thrown [of Preclose Undefined s] by simp
  ultimately show ?thesis by (cases h) (simp_all add: close_locked_def Let_def)
qed

text \<open>The two segments that start a transition, from a state with no flag set.\<close>

lemma open_locked_lock_free:
  assumes "lock_free s" and "loading s = False" and "closing s = False" and "loaded s = False"
  shows "lock_free (open_locked h (length (calls s)) (new_frame OpenCall AtHook s))"
proof -
  let ?c = "length (calls s)"
  let ?n = "new_frame OpenCall AtHook s"
  let ?s1 = "fst (emit Preopen Undefined ?n)"
  let ?s2 = "?s1\<lparr>loading := True, trace := trace ?s1 @ [InitHook]\<rparr>"
  have c: "?c < length (calls ?s2)" by simp
  have at: "pc (calls ?s2 ! ?c) = AtHook" by (simp add: emit_other)
  have tr: "transit ?s2 = [OpenCall]" using assms by (simp add: lock_free_def)
  have wt: "waiting ?s2 = 0" using assms by (simp add: lock_free_def)
  have "lock_free (set_pc ?c p ?s2)" if "in_transition p" "\<not> at_lock p" for p
    using that assms c at tr wt
    by (simp add: lock_free_def exclusive_def transit_set_pc_same waiting_set_pc_same)
  then show ?thesis
    by (cases h) (simp_all add: open_locked_eq)
qed

lemma close_locked_lock_free:
  assumes "lock_free s" and "loading s = False" and "closing s = False"
  shows "lock_free (close_locked h (length (calls s)) (new_frame CloseCall AtHook s))"
proof -
  let ?c = "length (calls s)"
  let ?n = "new_frame CloseCall AtHook s"
  let ?s1 = "fst (emit Preclose Undefined ?n)"
  let ?s2 = "?s1\<lparr>closing := True, loaded := False, trace := trace ?s1 @ [TeardownHook]\<rparr>"
  have c: "?c < length (calls ?s2)" by simp
  have at: "pc (calls ?s2 ! ?c) = AtHook" by (simp add: emit_other)
  have tr: "transit ?s2 = [CloseCall]" using assms by (simp add: lock_free_def)
  have wt: "waiting ?s2 = 0" using assms by (simp add: lock_free_def)
  have "lock_free (set_pc ?c p ?s2)" if "in_transition p" "\<not> at_lock p" for p
    using that assms c at tr wt
    by (simp add: lock_free_def exclusive_def transit_set_pc_same waiting_set_pc_same)
  then show ?thesis
    by (cases h) (simp_all add: close_locked_eq)
qed

lemma open_start_lock_free: "lock_free s \<Longrightarrow> lock_free (open_start h s)"
proof -
  assume a: "lock_free s"
  consider "closing s" | "closing s = False" "loaded s" | "closing s = False" "loaded s = False" "loading s"
    | "closing s = False" "loaded s = False" "loading s = False" by blast
  then show ?thesis
  proof cases
    case 1 with a show ?thesis by (simp add: open_start_def lock_free_def exclusive_def)
  next
    case 2 with a show ?thesis by (simp add: open_start_def lock_free_def exclusive_def)
  next
    case 3 with a show ?thesis
      by (simp add: open_start_def lock_free_def exclusive_def priv_onOpen_def)
  next
    case 4
    have "locker s = None" using a by (simp add: lock_free_def)
    with 4 open_locked_lock_free [OF a, of h] show ?thesis by (simp add: open_start_def)
  qed
qed

lemma close_start_lock_free: "lock_free s \<Longrightarrow> lock_free (close_start h s)"
proof -
  assume a: "lock_free s"
  consider "loading s" | "loading s = False" "loaded s = False" | "loading s = False" "loaded s" "closing s"
    | "loading s = False" "loaded s" "closing s = False" by blast
  then show ?thesis
  proof cases
    case 1 with a show ?thesis by (simp add: close_start_def lock_free_def exclusive_def)
  next
    case 2 with a show ?thesis by (simp add: close_start_def lock_free_def exclusive_def)
  next
    case 3 with a show ?thesis
      by (simp add: close_start_def lock_free_def exclusive_def priv_onClose_def)
  next
    case 4
    have "locker s = None" using a by (simp add: lock_free_def)
    with 4 close_locked_lock_free [OF a, of h] show ?thesis by (simp add: close_start_def)
  qed
qed

lemma settle_lock_free:
  assumes "locker s = None" and "waiting s = 0" and "transit s = [k]"
    and "c < length (calls s)" and "in_transition (pc (calls s ! c))"
    and "loading s = False" and "closing s = False"
  shows "lock_free (settle c out s)"
proof -
  have "at_lock (pc (calls s ! c)) = False"
    using assms(5) by (cases "pc (calls s ! c)") simp_all
  then have "waiting (settle c out s) = 0"
    using assms by (simp add: settle_def waiting_set_pc_same)
  moreover have "transit (settle c out s) = []"
    using assms by (simp add: settle_def transit_set_pc_drop)
  ultimately show ?thesis
    using assms by (simp add: lock_free_def exclusive_def)
qed

lemma in_transition_open:
  assumes "lock_free s" and "c < length (calls s)" and "in_transition (pc (calls s ! c))"
    and "kind (calls s ! c) = OpenCall"
  shows "loading s \<and> closing s = False \<and> loaded s = False \<and> transit s = [OpenCall]"
proof -
  have "OpenCall \<in> set (transit s)" using transit_member [OF assms(2,3)] assms(4) by simp
  then show ?thesis using assms(1) by (auto simp: lock_free_def exclusive_def split: if_splits)
qed

lemma in_transition_close:
  assumes "lock_free s" and "c < length (calls s)" and "in_transition (pc (calls s ! c))"
    and "kind (calls s ! c) = CloseCall"
  shows "closing s \<and> loading s = False \<and> loaded s = False \<and> transit s = [CloseCall]"
proof -
  have "CloseCall \<in> set (transit s)" using transit_member [OF assms(2,3)] assms(4) by simp
  then show ?thesis using assms(1) by (auto simp: lock_free_def exclusive_def split: if_splits)
qed

lemma open_finish_lock_free:
  assumes "lock_free s" and "c < length (calls s)" and "kind (calls s ! c) = OpenCall"
    and "pc (calls s ! c) = AtTick r"
  shows "lock_free (open_finish c r s)"
proof -
  have tr: "in_transition (pc (calls s ! c))" using assms(4) by simp
  note o = in_transition_open [OF assms(1,2) tr assms(3)]
  have nl: "locker s = None" "waiting s = 0" using assms(1) by (simp_all add: lock_free_def)
  have ne: "pc (calls s ! c) \<noteq> AtEvent None" using assms(4) by simp
  show ?thesis
  proof (cases "failing r")
    case None
    let ?s0 = "s\<lparr>loading := False, loaded := True\<rparr>"
    let ?s1 = "fst (emit OpenEv Undefined ?s0)"
    have "lock_free (settle c out ?s1)" for out
      using nl o assms(2) tr ne by (intro settle_lock_free [of _ OpenCall]) (simp_all add: emit_other)
    moreover have "locker ?s1 = None" using nl by simp
    ultimately show ?thesis
      using None by (cases "emit OpenEv Undefined ?s0")
        (auto simp: open_finish_def release_no_locker split: option.splits)
  next
    case (Some e)
    let ?s0 = "s\<lparr>loading := False\<rparr>"
    let ?s1 = "fst (priv_error OpenEv e ?s0)"
    have "lock_free (settle c out ?s1)" for out
      using nl o assms(2) tr ne by (intro settle_lock_free [of _ OpenCall]) (simp_all add: priv_error_other)
    moreover have "locker ?s1 = None" using nl by simp
    ultimately show ?thesis
      using Some by (cases "priv_error OpenEv e ?s0")
        (auto simp: open_finish_def release_no_locker split: option.splits)
  qed
qed

lemma close_finish_lock_free:
  assumes "lock_free s" and "c < length (calls s)" and "kind (calls s ! c) = CloseCall"
    and "pc (calls s ! c) = AtTick r"
  shows "lock_free (close_finish c r s)"
proof -
  have tr: "in_transition (pc (calls s ! c))" using assms(4) by simp
  note o = in_transition_close [OF assms(1,2) tr assms(3)]
  have nl: "locker s = None" "waiting s = 0" using assms(1) by (simp_all add: lock_free_def)
  have ne: "pc (calls s ! c) \<noteq> AtEvent None" using assms(4) by simp
  show ?thesis
  proof (cases "failing r")
    case None
    let ?s0 = "s\<lparr>closing := False\<rparr>"
    let ?s1 = "fst (emit CloseEv Undefined ?s0)"
    have "lock_free (settle c out ?s1)" for out
      using nl o assms(2) tr ne by (intro settle_lock_free [of _ CloseCall]) (simp_all add: emit_other)
    moreover have "locker ?s1 = None" using nl by simp
    ultimately show ?thesis
      using None by (cases "emit CloseEv Undefined ?s0")
        (auto simp: close_finish_def release_no_locker split: option.splits)
  next
    case (Some e)
    let ?s0 = "s\<lparr>closing := False\<rparr>"
    let ?s1 = "fst (priv_error CloseEv e ?s0)"
    have "lock_free (settle c out ?s1)" for out
      using nl o assms(2) tr ne by (intro settle_lock_free [of _ CloseCall]) (simp_all add: priv_error_other)
    moreover have "locker ?s1 = None" using nl by simp
    ultimately show ?thesis
      using Some by (cases "priv_error CloseEv e ?s0")
        (auto simp: close_finish_def release_no_locker split: option.splits)
  qed
qed

lemma settle_idle_lock_free:
  assumes "lock_free s" and "c < length (calls s)"
    and "in_transition (pc (calls s ! c)) = False" and "at_lock (pc (calls s ! c)) = False"
  shows "lock_free (settle c out s)"
  using assms by (simp add: lock_free_def exclusive_def settle_def transit_set_pc_same waiting_set_pc_same)

lemma step_lock_free:
  assumes "lock_free s" and "step l s = Some s'"
  shows "lock_free s'"
proof (cases l)
  case (Open h)
  with assms show ?thesis by (auto simp: open_start_lock_free)
next
  case (Close h)
  with assms show ?thesis by (auto simp: close_start_lock_free)
next
  case (Granted c h)
  with assms(2) have c: "c < length (calls s)" and "pc (calls s ! c) = AtLock True"
    by (auto split: if_splits pc.splits bool.splits)
  then have "0 < waiting s" by (simp add: waiting_member)
  with assms(1) show ?thesis by (simp add: lock_free_def)
next
  case (HookSettled c r)
  with assms(2) have c: "c < length (calls s)" and at: "pc (calls s ! c) = AtHook"
    and s': "s' = set_pc c (AtTick r) s"
    by (auto split: if_splits pc.splits)
  then show ?thesis
    using assms(1) by (simp add: lock_free_def exclusive_def transit_set_pc_same waiting_set_pc_same)
next
  case (Tick c)
  with assms(2) have c: "c < length (calls s)" by (auto split: if_splits)
  show ?thesis
  proof (cases "pc (calls s ! c)")
    case AtReturn
    with assms Tick c show ?thesis by (auto simp: settle_idle_lock_free)
  next
    case (AtTick r)
    with assms Tick c show ?thesis
      by (cases "kind (calls s ! c)") (auto simp: open_finish_lock_free close_finish_lock_free)
  qed (use assms Tick c in auto)
next
  case (Wake c)
  with assms(2) obtain v where c: "c < length (calls s)" and at: "pc (calls s ! c) = AtEvent (Some v)"
    and s': "s' = settle c (Resolved v) s"
    by (auto split: if_splits pc.splits option.splits)
  then show ?thesis using assms(1) by (simp add: settle_idle_lock_free)
next
  case (On ev n)
  with assms show ?thesis by (auto simp: lock_free_def exclusive_def)
qed

lemma run_lock_free: "lock_free s \<Longrightarrow> run ls s = Some s' \<Longrightarrow> lock_free s'"
proof (induction ls arbitrary: s)
  case Nil
  then show ?case by simp
next
  case (Cons l ls)
  then show ?case by (auto split: option.splits dest: step_lock_free)
qed

lemma AsyncObject_lock_free: "lock_free AsyncObject"
  by (simp add: lock_free_def exclusive_def waiting_def transit_def AsyncObject_def)

text \<open>
  Without a lock the flags do exclude each other. In every state reached from the state
  the constructor of \<^verbatim>\<open>AsyncObject\<close> leaves (no lock) by any sequence of steps of
  \<^verbatim>\<open>open()\<close> and \<^verbatim>\<open>close()\<close> calls (new calls, resumptions, hooks settling either way,
  observers registering), no two of \<^verbatim>\<open>loading\<close>, \<^verbatim>\<open>closing\<close> and \<^verbatim>\<open>loaded\<close> are true
  together, and every step enabled in such a state leads to a state where this holds
  again.
\<close>

lemma flags_exclusive_without_lock:
  assumes "run ls AsyncObject = Some s"
  shows "exclusive s \<and> state_of s \<noteq> None \<and> (\<forall>l s'. step l s = Some s' \<longrightarrow> exclusive s')"
proof -
  have a: "lock_free s" using AsyncObject_lock_free assms by (rule run_lock_free)
  then have "exclusive s" by (simp add: lock_free_def)
  moreover have "exclusive s'" if "step l s = Some s'" for l s'
    using step_lock_free [OF a that] by (simp add: lock_free_def)
  ultimately show ?thesis by (simp add: exclusive_state_of)
qed

lemma flags_exclusive_without_lock_witness:
  "run failed_close_run AsyncObject \<noteq> None
   \<and> exclusive (case run failed_close_run AsyncObject of Some s \<Rightarrow> s | None \<Rightarrow> AsyncObject)
   \<and> run opened_run AsyncObject = Some opened_example
   \<and> exclusive opened_example \<and> state_of opened_example \<noteq> None"
proof -
  obtain s where s: "run failed_close_run AsyncObject = Some s"
    by (cases "run failed_close_run AsyncObject") (simp_all, code_simp)
  from flags_exclusive_without_lock [OF s] flags_exclusive_without_lock [OF opened_example_run] s
  show ?thesis by (simp add: opened_example_run)
qed

subsection \<open>One hook invocation per opening\<close>

lemma inits_trace [simp]: "inits (s\<lparr>trace := tr\<rparr>) = count_list tr InitHook"
  by (simp add: inits_def)

lemma inits_fields [simp]:
  "inits (s\<lparr>loading := b\<rparr>) = inits s"
  "inits (s\<lparr>closing := b\<rparr>) = inits s"
  "inits (s\<lparr>loaded := b\<rparr>) = inits s"
  "inits (s\<lparr>locker := lk\<rparr>) = inits s"
  "inits (s\<lparr>listeners := ls\<rparr>) = inits s"
  "inits (s\<lparr>calls := cs\<rparr>) = inits s"
  by (simp_all add: inits_def)

lemma count_trace [simp]: "count_list (trace s) InitHook = inits s"
  by (simp add: inits_def)

lemma inits_frames [simp]:
  "inits (new_frame k p s) = inits s"
  "inits (set_pc c p s) = inits s"
  "inits (settle c out s) = inits s"
  "inits (resolve c a s) = inits s"
  "inits (priv_onOpen c s) = inits s"
  "inits (priv_onClose c s) = inits s"
  by (simp_all add: new_frame_def set_pc_def settle_def resolve_def priv_onOpen_def priv_onClose_def)

lemma inits_invoke [simp]: "inits (invoke ev a l s) = inits s"
  by (cases l) simp_all

lemma inits_notify [simp]: "inits (fold (invoke ev a) ls s) = inits s"
  by (induction ls arbitrary: s) simp_all

lemma inits_emit [simp]: "inits (fst (emit ev a s)) = inits s"
  by (simp add: emit_def Let_def)

lemma inits_priv_error [simp]: "inits (fst (priv_error ev e s)) = inits s"
  by (simp add: priv_error_def Let_def)

lemma inits_unlock [simp]: "inits (unlock s) = inits s"
  by (simp add: unlock_def split: option.split list.split)

lemma inits_release [simp]: "inits (release c s) = inits s"
  by (simp add: release_def)

lemma inits_open_locked [simp]: "inits (open_locked h c s) = inits s + 1"
  by (cases h) (simp_all add: open_locked_eq)

lemma inits_close_locked [simp]: "inits (close_locked h c s) = inits s"
  by (cases h) (simp_all add: close_locked_eq)

lemma inits_open_finish [simp]: "inits (open_finish c r s) = inits s"
proof (cases "failing r")
  case None
  have "inits s1 = inits s" if "emit OpenEv Undefined (s\<lparr>loading := False, loaded := True\<rparr>) = (s1, t)"
    for s1 t using inits_emit [of OpenEv Undefined "s\<lparr>loading := False, loaded := True\<rparr>"] that by simp
  with None show ?thesis
    by (cases "emit OpenEv Undefined (s\<lparr>loading := False, loaded := True\<rparr>)")
      (auto simp: open_finish_def split: option.splits)
next
  case (Some e)
  have "inits s1 = inits s" if "priv_error OpenEv e (s\<lparr>loading := False\<rparr>) = (s1, t)"
    for s1 t using inits_priv_error [of OpenEv e "s\<lparr>loading := False\<rparr>"] that by simp
  with Some show ?thesis
    by (cases "priv_error OpenEv e (s\<lparr>loading := False\<rparr>)")
      (auto simp: open_finish_def split: option.splits)
qed

lemma inits_close_finish [simp]: "inits (close_finish c r s) = inits s"
proof (cases "failing r")
  case None
  have "inits s1 = inits s" if "emit CloseEv Undefined (s\<lparr>closing := False\<rparr>) = (s1, t)"
    for s1 t using inits_emit [of CloseEv Undefined "s\<lparr>closing := False\<rparr>"] that by simp
  with None show ?thesis
    by (cases "emit CloseEv Undefined (s\<lparr>closing := False\<rparr>)")
      (auto simp: close_finish_def split: option.splits)
next
  case (Some e)
  have "inits s1 = inits s" if "priv_error CloseEv e (s\<lparr>closing := False\<rparr>) = (s1, t)"
    for s1 t using inits_priv_error [of CloseEv e "s\<lparr>closing := False\<rparr>"] that by simp
  with Some show ?thesis
    by (cases "priv_error CloseEv e (s\<lparr>closing := False\<rparr>)")
      (auto simp: close_finish_def split: option.splits)
qed

lemma inits_close_start [simp]: "inits (close_start h s) = inits s"
  by (simp add: close_start_def Let_def lock_def split: option.split)

lemma open_locked_flags:
  "loading (open_locked h c s) = True"
  "closing (open_locked h c s) = closing s"
  "loaded (open_locked h c s) = loaded s"
  by (cases h; simp add: open_locked_eq)+

text \<open>open() where a flag is set: nothing but the new call's frame and, while loading, its listener.\<close>

lemma open_start_busy:
  assumes "loaded s \<or> loading s \<or> closing s"
  shows "trace (open_start h s) = trace s \<and> locker (open_start h s) = locker s
     \<and> loading (open_start h s) = loading s \<and> closing (open_start h s) = closing s
     \<and> loaded (open_start h s) = loaded s
     \<and> take (length (calls s)) (calls (open_start h s)) = calls s"
  using assms by (auto simp: open_start_def Let_def priv_onOpen_def)

lemma open_start_idle:
  assumes "state_of s = Some Idle" and "locker s = None"
  shows "inits (open_start h s) = inits s + 1 \<and> state_of (open_start h s) = Some Opening"
  using assms by (simp add: state_of_Idle state_of_Opening open_start_def open_locked_flags)

lemma step_inits:
  assumes "lock_free s" and "step l s = Some s'"
  shows "inits s' = inits s + (if is_open l \<and> state_of s = Some Idle then 1 else 0)"
proof (cases l)
  case (Open h)
  have nl: "locker s = None" using assms(1) by (simp add: lock_free_def)
  show ?thesis
  proof (cases "state_of s = Some Idle")
    case True
    with Open assms(2) open_start_idle [OF True nl, of h] show ?thesis by auto
  next
    case False
    then have "loaded s \<or> loading s \<or> closing s" by (auto simp: state_of_Idle)
    from open_start_busy [OF this, of h] have "inits (open_start h s) = inits s"
      unfolding inits_def by simp
    with Open assms(2) False show ?thesis by auto
  qed
next
  case (Granted c h)
  with assms(2) have c: "c < length (calls s)" and "pc (calls s ! c) = AtLock True"
    by (auto split: if_splits pc.splits bool.splits)
  then have "0 < waiting s" by (simp add: waiting_member)
  with assms(1) show ?thesis by (simp add: lock_free_def)
next
  case (Tick c)
  with assms(2) show ?thesis
    by (auto split: if_splits pc.splits kind.splits)
qed (use assms(2) in \<open>auto split: if_splits pc.splits option.splits\<close>)

text \<open>
  With or without a lock: for every component with \<^verbatim>\<open>loaded\<close> or \<^verbatim>\<open>loading\<close> set, a call
  of \<^verbatim>\<open>open()\<close> invokes no hook, emits nothing and does not ask for the lock: the trace,
  the lock and the state are as before.
\<close>

lemma open_when_open_or_opening:
  assumes "loaded s \<or> loading s"
  shows "inits (open_start h s) = inits s \<and> trace (open_start h s) = trace s
     \<and> locker (open_start h s) = locker s \<and> state_of (open_start h s) = state_of s"
proof -
  from assms have "loaded s \<or> loading s \<or> closing s" by blast
  from open_start_busy [OF this, of h] show ?thesis
    unfolding inits_def state_of_def by simp
qed

lemma open_when_open_or_opening_witness:
  "loaded opened_example \<and> inits (open_start Returns opened_example) = inits opened_example
   \<and> trace (open_start Returns opened_example) = trace opened_example
   \<and> loading opening_example \<and> inits (open_start Returns opening_example) = inits opening_example
   \<and> trace (open_start Returns opening_example) = trace opening_example"
proof -
  have a: "loaded opened_example" by code_simp
  have b: "loading opening_example" by code_simp
  from a b open_when_open_or_opening [of opened_example Returns]
    open_when_open_or_opening [of opening_example Returns]
  show ?thesis by simp
qed

text \<open>
  Without a lock: along every run from the constructor's state, a step invokes the
  initialization hook exactly when it is a call of \<^verbatim>\<open>open()\<close> made in state Idle, and
  then once, moving the component to Opening. Any number of overlapping calls invoke
  the hook once per transition from Idle.
\<close>

lemma hook_once_per_opening:
  assumes "run ls AsyncObject = Some s" and "step l s = Some s'"
  shows "inits s' = inits s + (if is_open l \<and> state_of s = Some Idle then 1 else 0)
     \<and> (is_open l \<and> state_of s = Some Idle \<longrightarrow> state_of s' = Some Opening)"
proof -
  have a: "lock_free s" using AsyncObject_lock_free assms(1) by (rule run_lock_free)
  have "state_of s' = Some Opening" if "is_open l" "state_of s = Some Idle"
  proof -
    from that(1) obtain h where "l = Open h" by (cases l) simp_all
    moreover have "locker s = None" using a by (simp add: lock_free_def)
    ultimately show ?thesis using assms(2) open_start_idle [OF that(2), of h] by auto
  qed
  with step_inits [OF a assms(2)] show ?thesis by blast
qed

lemma hook_once_per_opening_witness:
  "run [] AsyncObject = Some AsyncObject
   \<and> step (Open Returns) AsyncObject = Some opening_example
   \<and> inits opening_example = inits AsyncObject + 1
   \<and> state_of opening_example = Some Opening
   \<and> run [Open Returns] AsyncObject = Some opening_example
   \<and> step (Open Returns) opening_example \<noteq> None
   \<and> map_option inits (step (Open Returns) opening_example) = Some (inits opening_example)"
proof -
  have r0: "run [] AsyncObject = Some AsyncObject" by simp
  have s0: "step (Open Returns) AsyncObject = Some opening_example"
    using opening_example_run by (simp split: option.splits)
  have i0: "state_of AsyncObject = Some Idle" by code_simp
  obtain s1 where s1: "step (Open Returns) opening_example = Some s1" by simp
  have i1: "state_of opening_example \<noteq> Some Idle" by code_simp
  from hook_once_per_opening [OF r0 s0] hook_once_per_opening [OF opening_example_run s1]
    r0 s0 i0 i1 s1 opening_example_run
  show ?thesis by simp
qed

lemma open_finish_failure:
  assumes "c < length (calls s)" and "is_Error e"
  shows "pc (calls (open_finish c (Some e) s) ! c) = Settled (Rejected e)
     \<and> loading (open_finish c (Some e) s) = False
     \<and> closing (open_finish c (Some e) s) = closing s
     \<and> loaded (open_finish c (Some e) s) = loaded s
     \<and> (locker s = None \<longrightarrow> locker (open_finish c (Some e) s) = None)"
proof (cases "priv_error OpenEv e (s\<lparr>loading := False\<rparr>)")
  case (Pair s1 t)
  have s1: "s1 = fst (priv_error OpenEv e (s\<lparr>loading := False\<rparr>))"
    and t: "t = snd (priv_error OpenEv e (s\<lparr>loading := False\<rparr>))"
    using Pair by simp_all
  have len: "c < length (calls s1)" using assms by (simp add: s1)
  have fl: "loading s1 = False" "closing s1 = closing s" "loaded s1 = loaded s" "locker s1 = locker s"
    by (simp_all add: s1)
  from priv_error_thrown [of OpenEv e "s\<lparr>loading := False\<rparr>"] assms(2)
  have "t = None \<or> t = Some e" by (simp add: t)
  then show ?thesis
    using Pair len fl is_Error_truthy [OF assms(2)]
    by (auto simp: open_finish_def release_no_locker)
qed

text \<open>
  For every component in state Opening whose \<^verbatim>\<open>open()\<close> call has seen the
  initialization hook fail with an Error object, the last segment of the call leaves the component Idle and
  rejects the call with the hook's error; without a lock, a subsequent \<^verbatim>\<open>open()\<close>
  invokes the hook again and is in state Opening.
\<close>

lemma failed_open_leaves_idle:
  assumes "state_of s = Some Opening"
    and "c < length (calls s)"
    and "kind (calls s ! c) = OpenCall"
    and "pc (calls s ! c) = AtTick (Some e)"
    and "is_Error e"
  shows "step (Tick c) s = Some (open_finish c (Some e) s)
     \<and> state_of (open_finish c (Some e) s) = Some Idle
     \<and> pc (calls (open_finish c (Some e) s) ! c) = Settled (Rejected e)
     \<and> (locker s = None \<longrightarrow>
          inits (open_start h (open_finish c (Some e) s)) = inits (open_finish c (Some e) s) + 1
          \<and> state_of (open_start h (open_finish c (Some e) s)) = Some Opening)"
proof -
  let ?s' = "open_finish c (Some e) s"
  note f = open_finish_failure [OF assms(2,5)]
  have st: "step (Tick c) s = Some ?s'" using assms by simp
  have idle: "state_of ?s' = Some Idle"
    using f assms(1) by (simp add: state_of_Opening state_of_Idle)
  have "inits (open_start h ?s') = inits ?s' + 1 \<and> state_of (open_start h ?s') = Some Opening"
    if "locker s = None"
    using open_start_idle [OF idle, of h] f that by simp
  then show ?thesis using st idle f by blast
qed

lemma failed_open_leaves_idle_witness:
  "state_of opening_failed_example = Some Opening
   \<and> locker opening_failed_example = None
   \<and> step (Tick 0) opening_failed_example = Some (open_finish 0 (Some (HookError 1)) opening_failed_example)
   \<and> state_of (open_finish 0 (Some (HookError 1)) opening_failed_example) = Some Idle
   \<and> pc (calls (open_finish 0 (Some (HookError 1)) opening_failed_example) ! 0)
        = Settled (Rejected (HookError 1))
   \<and> inits (open_start Returns (open_finish 0 (Some (HookError 1)) opening_failed_example))
        = inits (open_finish 0 (Some (HookError 1)) opening_failed_example) + 1
   \<and> state_of (open_start Returns (open_finish 0 (Some (HookError 1)) opening_failed_example))
        = Some Opening"
proof -
  have a: "state_of opening_failed_example = Some Opening" by code_simp
  have b: "0 < length (calls opening_failed_example)" by code_simp
  have c: "kind (calls opening_failed_example ! 0) = OpenCall" by code_simp
  have d: "pc (calls opening_failed_example ! 0) = AtTick (Some (HookError 1))" by code_simp
  have l: "locker opening_failed_example = None" by code_simp
  have e: "is_Error (HookError 1)" by simp
  from failed_open_leaves_idle [OF a b c d e, of Returns] a l show ?thesis by simp
qed

subsection \<open>The calls waiting for an open that fails\<close>

lemma resolve_elsewhere: "i \<noteq> c \<Longrightarrow> calls (resolve c a s) ! i = calls s ! i"
  by (simp add: resolve_def set_pc_def)

lemma resolve_here:
  "w < length (calls s) \<Longrightarrow> pc (calls s ! w) = AtEvent None
     \<Longrightarrow> calls (resolve w a s) ! w = (calls s ! w)\<lparr>pc := AtEvent (Some a)\<rparr>"
  by (simp add: resolve_def set_pc_def)

lemma notify_resolves:
  "Once w \<in> set ls \<Longrightarrow> w < length (calls s) \<Longrightarrow> pc (calls s ! w) = AtEvent None
     \<Longrightarrow> calls (fold (invoke ev a) ls s) ! w = (calls s ! w)\<lparr>pc := AtEvent (Some a)\<rparr>"
proof (induction ls arbitrary: s)
  case Nil
  then show ?case by simp
next
  case (Cons l ls)
  show ?case
  proof (cases "l = Once w")
    case True
    have "calls (invoke ev a l s) ! w = (calls s ! w)\<lparr>pc := AtEvent (Some a)\<rparr>"
      using True Cons.prems by (simp add: resolve_here)
    moreover from this have "pc (calls (invoke ev a l s) ! w) \<noteq> AtEvent None" by simp
    ultimately show ?thesis by (simp add: notify_other)
  next
    case False
    then have same: "calls (invoke ev a l s) ! w = calls s ! w"
      by (cases l) (simp_all add: resolve_elsewhere)
    from False Cons.prems have "Once w \<in> set ls" by auto
    from Cons.IH [OF this, of "invoke ev a l s"] Cons.prems same show ?thesis by simp
  qed
qed

lemma priv_error_resolves:
  assumes "Once w \<in> set (listeners s ev)" and "w < length (calls s)"
    and "pc (calls s ! w) = AtEvent None"
  shows "calls (fst (priv_error ev e s)) ! w = (calls s ! w)\<lparr>pc := AtEvent (Some (ErrorVal e))\<rparr>"
proof -
  let ?s1 = "s\<lparr>listeners := (listeners s)(ev := [])\<rparr>"
  let ?s2 = "fold (invoke ev (ErrorVal e)) (listeners s ev) ?s1"
  have "calls ?s2 ! w = (calls s ! w)\<lparr>pc := AtEvent (Some (ErrorVal e))\<rparr>"
    using notify_resolves [of w "listeners s ev" ?s1 ev "ErrorVal e"] assms by simp
  moreover from this have "pc (calls ?s2 ! w) \<noteq> AtEvent None" by simp
  ultimately show ?thesis by (simp add: priv_error_def Let_def emit_other)
qed

lemma unlock_elsewhere: "queued s w = False \<Longrightarrow> calls (unlock s) ! w = calls s ! w"
  by (auto simp: unlock_def queued_def set_pc_def split: option.splits list.splits)

lemma release_elsewhere: "queued s w = False \<Longrightarrow> calls (release c s) ! w = calls s ! w"
  by (simp add: release_def unlock_elsewhere)

lemma settle_elsewhere: "w \<noteq> c \<Longrightarrow> calls (settle c out s) ! w = calls s ! w"
  by (simp add: settle_def set_pc_def)

lemma queued_priv_error [simp]: "queued (fst (priv_error ev e s)) w = queued s w"
  by (simp add: queued_def)

lemma open_finish_waiter:
  assumes "c < length (calls s)" and "pc (calls s ! c) = AtTick (Some e)"
    and "w < length (calls s)" and "pc (calls s ! w) = AtEvent None"
    and "Once w \<in> set (listeners s OpenEv)" and "queued s w = False"
    and "is_truthy e"
  shows "calls (open_finish c (Some e) s) ! w = (calls s ! w)\<lparr>pc := AtEvent (Some (ErrorVal e))\<rparr>"
proof (cases "priv_error OpenEv e (s\<lparr>loading := False\<rparr>)")
  case (Pair s1 t)
  let ?s0 = "s\<lparr>loading := False\<rparr>"
  have s1: "s1 = fst (priv_error OpenEv e ?s0)" using Pair by simp
  have ne: "w \<noteq> c" using assms(2,4) by auto
  have w: "calls s1 ! w = (calls s ! w)\<lparr>pc := AtEvent (Some (ErrorVal e))\<rparr>"
    using priv_error_resolves [of w ?s0 OpenEv e] assms by (simp add: s1)
  have q: "queued s1 w = False" using assms(6) by (simp add: s1 queued_def)
  show ?thesis
    using Pair w q ne assms(7)
    by (cases t) (simp_all add: open_finish_def settle_elsewhere release_elsewhere)
qed

text \<open>
  In every state, not only in the run above: when an \<^verbatim>\<open>open()\<close> call has seen the
  initialization hook fail with an Error object, every call that waits on the \<^verbatim>\<open>'open'\<close> event
  (and is not queued on the lock) is resolved with that error as its value when it
  resumes, while the failing call is rejected with it.
\<close>

lemma waiters_resolved_on_failure:
  assumes "c < length (calls s)" and "kind (calls s ! c) = OpenCall"
    and "pc (calls s ! c) = AtTick (Some e)"
    and "w < length (calls s)" and "pc (calls s ! w) = AtEvent None"
    and "Once w \<in> set (listeners s OpenEv)" and "queued s w = False"
    and "is_Error e"
  shows "run [Tick c, Wake w] s = Some (settle w (Resolved (ErrorVal e)) (open_finish c (Some e) s))
     \<and> pc (calls (settle w (Resolved (ErrorVal e)) (open_finish c (Some e) s)) ! w)
         = Settled (Resolved (ErrorVal e))
     \<and> pc (calls (settle w (Resolved (ErrorVal e)) (open_finish c (Some e) s)) ! c)
         = Settled (Rejected e)"
proof -
  let ?s1 = "open_finish c (Some e) s"
  let ?s2 = "settle w (Resolved (ErrorVal e)) ?s1"
  have ne: "w \<noteq> c" using assms(3,5) by auto
  have len: "length (calls ?s1) = length (calls s)"
    by (cases "priv_error OpenEv e (s\<lparr>loading := False\<rparr>)")
      (auto simp: open_finish_def is_Error_truthy [OF assms(8)] split: option.splits
      dest: arg_cong [where f = fst])
  have w1: "pc (calls ?s1 ! w) = AtEvent (Some (ErrorVal e))"
    using open_finish_waiter [OF assms(1,3,4,5,6,7) is_Error_truthy [OF assms(8)]] by simp
  have c1: "pc (calls ?s1 ! c) = Settled (Rejected e)"
    using open_finish_failure [OF assms(1,8)] by simp
  have "run [Tick c, Wake w] s = Some ?s2"
    using assms(1,2,3,4) w1 len by simp
  moreover have "pc (calls ?s2 ! w) = Settled (Resolved (ErrorVal e))"
    using assms(4) len by simp
  moreover have "pc (calls ?s2 ! c) = Settled (Rejected e)"
    using ne c1 by (simp add: settle_elsewhere)
  ultimately show ?thesis by simp
qed

lemma waiters_resolved_on_failure_witness:
  "Once 1 \<in> set (listeners waiter_example OpenEv)
   \<and> pc (calls waiter_example ! 1) = AtEvent None
   \<and> run [Tick 0, Wake 1] waiter_example
       = Some (settle 1 (Resolved (ErrorVal (HookError 1)))
                (open_finish 0 (Some (HookError 1)) waiter_example))
   \<and> pc (calls (settle 1 (Resolved (ErrorVal (HookError 1)))
                (open_finish 0 (Some (HookError 1)) waiter_example)) ! 1)
         = Settled (Resolved (ErrorVal (HookError 1)))
   \<and> pc (calls (settle 1 (Resolved (ErrorVal (HookError 1)))
                (open_finish 0 (Some (HookError 1)) waiter_example)) ! 0)
         = Settled (Rejected (HookError 1))"
proof -
  have a: "0 < length (calls waiter_example)" "kind (calls waiter_example ! 0) = OpenCall"
    "pc (calls waiter_example ! 0) = AtTick (Some (HookError 1))" by code_simp+
  have b: "1 < length (calls waiter_example)" "pc (calls waiter_example ! 1) = AtEvent None"
    "Once 1 \<in> set (listeners waiter_example OpenEv)" "queued waiter_example 1 = False"
    by code_simp+
  from waiters_resolved_on_failure [OF a b] b show ?thesis by simp
qed

subsection \<open>A lock that is never released\<close>

lemma list_all_update:
  "list_all P xs \<Longrightarrow> P y \<Longrightarrow> list_all P (xs[c := y])"
  using set_update_subset_insert [of xs c y] by (auto simp: list_all_iff)

lemma leaked_parked: "leaked s \<Longrightarrow> c < length (calls s) \<Longrightarrow> parked (pc (calls s ! c))"
  by (simp add: leaked_def list_all_length)

lemma leaked_step:
  assumes "leaked s" and "step l s = Some s'"
  shows "leaked s' \<and> inits s' = inits s"
proof (cases l)
  case (Open h)
  from assms(1) obtain k where k: "locker s = Some k" "busy k"
    by (auto simp: leaked_def split: option.splits)
  with assms Open show ?thesis
    by (auto simp: leaked_def open_start_def lock_def Let_def)
next
  case (Close h)
  with assms show ?thesis by (auto simp: leaked_def close_start_def Let_def)
next
  case (Granted c h)
  with assms(2) have "c < length (calls s)" "pc (calls s ! c) = AtLock True"
    by (auto split: if_splits pc.splits bool.splits)
  with leaked_parked [OF assms(1), of c] show ?thesis by simp
next
  case (HookSettled c r)
  with assms(2) have "c < length (calls s)" "pc (calls s ! c) = AtHook"
    by (auto split: if_splits pc.splits)
  with leaked_parked [OF assms(1), of c] show ?thesis by simp
next
  case (Tick c)
  with assms(2) have c: "c < length (calls s)" by (auto split: if_splits)
  from leaked_parked [OF assms(1) c] assms Tick c show ?thesis
    by (cases "pc (calls s ! c)")
      (auto simp: leaked_def settle_def set_pc_def list_all_update)
next
  case (Wake c)
  with assms(2) have c: "c < length (calls s)" by (auto split: if_splits)
  from leaked_parked [OF assms(1) c] assms(2) Wake c show ?thesis
    by (cases "pc (calls s ! c)") auto
next
  case (On ev n)
  with assms show ?thesis by (auto simp: leaked_def)
qed

lemma leaked_run: "leaked s \<Longrightarrow> run ls s = Some s' \<Longrightarrow> leaked s' \<and> inits s' = inits s"
proof (induction ls arbitrary: s)
  case Nil
  then show ?case by simp
next
  case (Cons l ls)
  from Cons.prems obtain s1 where s1: "step l s = Some s1" "run ls s1 = Some s'"
    by (auto split: option.splits)
  from leaked_step [OF Cons.prems(1) s1(1)] Cons.IH [OF _ s1(2)] show ?case by simp
qed

lemma lock_leaked_example_run: "run failed_open_with_lock with_locker = Some lock_leaked_example"
  by code_simp

lemma lock_leaked_example_leaked: "leaked lock_leaked_example"
  by code_simp

text \<open>
  After the failed \<^verbatim>\<open>open()\<close> of the run \<open>failed_open_with_lock\<close>, whatever calls and
  resumptions follow, the initialization hook is never invoked again and the component
  stays Idle: every later \<^verbatim>\<open>open()\<close> queues on the lock, which no call releases.
\<close>

lemma hook_never_again_after_leak:
  assumes "run ls lock_leaked_example = Some s'"
  shows "inits s' = 1 \<and> state_of s' = Some Idle"
proof -
  have "inits lock_leaked_example = 1" by code_simp
  with leaked_run [OF lock_leaked_example_leaked assms] show ?thesis
    by (simp add: leaked_def state_of_Idle)
qed

section \<open>Properties of the environment\<close>

lemma assign_flag:
  "(case v of VBool b \<Rightarrow> e\<lparr>useWorkers := b\<rparr> | _ \<Rightarrow> e)
     = e\<lparr>useWorkers := (case v of VBool b \<Rightarrow> b | _ \<Rightarrow> useWorkers e)\<rparr>"
  by (cases v) simp_all

lemma finite_number_typeof: "finite_number v \<Longrightarrow> typeof v = TNumber"
  by (induction v rule: finite_number.induct) simp_all

text \<open>What one call of \<^verbatim>\<open>set\<close> leaves in each setting, for any environment it is called on.\<close>

lemma set_result:
  assumes "\<And>v. isNumber H v \<Longrightarrow> typeof v = TNumber"
  shows "(typeof (field (options_of opts) ''maxWorkers'') \<noteq> TNumber
            \<longrightarrow> pool_size (env_set H opts e) = pool_size e)
     \<and> (typeof (field (options_of opts) ''workerTimeout'') \<noteq> TNumber
            \<longrightarrow> pool_timeout (env_set H opts e) = pool_timeout e)
     \<and> (typeof (field (options_of opts) ''sigcacheSize'') \<noteq> TNumber
            \<longrightarrow> sigcache (env_set H opts e) = sigcache e)
     \<and> useWorkers (env_set H opts e)
          = worker_gate H (case field (options_of opts) ''useWorkers'' of
                             VBool b \<Rightarrow> b | _ \<Rightarrow> useWorkers e)"
proof -
  have n: "isNumber H v = False" if "typeof v \<noteq> TNumber" for v
    using assms that by blast
  have "pool_size (env_set H opts e) = pool_size e"
    if "typeof (field (options_of opts) ''maxWorkers'') \<noteq> TNumber"
    using n [OF that] by (simp add: env_set_def Let_def assign_flag)
  moreover have "pool_timeout (env_set H opts e) = pool_timeout e"
    if "typeof (field (options_of opts) ''workerTimeout'') \<noteq> TNumber"
    using n [OF that] by (simp add: env_set_def Let_def assign_flag)
  moreover have "sigcache (env_set H opts e) = sigcache e"
    if "typeof (field (options_of opts) ''sigcacheSize'') \<noteq> TNumber"
    using n [OF that] by (simp add: env_set_def Let_def assign_flag)
  moreover have "useWorkers (env_set H opts e)
      = worker_gate H (case field (options_of opts) ''useWorkers'' of
                         VBool b \<Rightarrow> b | _ \<Rightarrow> useWorkers e)"
    by (cases "field (options_of opts) ''useWorkers''")
      (auto simp: env_set_def Let_def worker_gate_def)
  ultimately show ?thesis by blast
qed

text \<open>
  After any call of \<^verbatim>\<open>set\<close>, in a browser the flag is true only if the host can run
  workers; so it is in every environment the constructor and later calls produce, and
  there the gate of a later call finds nothing to change.
\<close>

lemma set_flag:
  "useWorkers (env_set H opts e)
     = worker_gate H (case field (options_of opts) ''useWorkers'' of
                        VBool b \<Rightarrow> b | _ \<Rightarrow> useWorkers e)"
  by (cases "field (options_of opts) ''useWorkers''")
    (auto simp: env_set_def Let_def worker_gate_def)

lemma set_gated: "worker_gate H (useWorkers (env_set H opts e)) = useWorkers (env_set H opts e)"
  unfolding set_flag by (auto simp: worker_gate_def)

lemma fold_set_gated:
  "worker_gate H (useWorkers e) = useWorkers e
     \<Longrightarrow> worker_gate H (useWorkers (fold (env_set H) history e)) = useWorkers (fold (env_set H) history e)"
  by (induction history arbitrary: e) (simp_all add: set_gated)

lemma reached_gated:
  "worker_gate H (useWorkers (reached H penv fresh history)) = useWorkers (reached H penv fresh history)"
  unfolding reached_def Environment_def by (rule fold_set_gated) (rule set_gated)

lemma not_boolean: "typeof v \<noteq> TBoolean \<Longrightarrow> (case v of VBool b \<Rightarrow> b | _ \<Rightarrow> u) = u"
  by (cases v) simp_all

text \<open>
  Claim C9. Let \<^verbatim>\<open>utils.isNumber\<close> accept values of type number only. On every environment
  that the constructor and any sequence of calls of \<^verbatim>\<open>set\<close> have produced, and for every
  value passed to \<^verbatim>\<open>set\<close>: a field among \<^verbatim>\<open>maxWorkers\<close>, \<^verbatim>\<open>workerTimeout\<close> and
  \<^verbatim>\<open>sigcacheSize\<close> that is absent or not of type number leaves the worker pool's size,
  the worker timeout or the signature cache as it was, and a \<^verbatim>\<open>useWorkers\<close> field that is
  not of type boolean leaves the \<^verbatim>\<open>useWorkers\<close> flag as it was.
\<close>

theorem set_keeps_unset_options:
  assumes "\<And>v. isNumber H v \<Longrightarrow> typeof v = TNumber"
  shows "(typeof (field (options_of opts) ''maxWorkers'') \<noteq> TNumber
            \<longrightarrow> pool_size (env_set H opts (reached H penv fresh history))
                = pool_size (reached H penv fresh history))
     \<and> (typeof (field (options_of opts) ''workerTimeout'') \<noteq> TNumber
            \<longrightarrow> pool_timeout (env_set H opts (reached H penv fresh history))
                = pool_timeout (reached H penv fresh history))
     \<and> (typeof (field (options_of opts) ''sigcacheSize'') \<noteq> TNumber
            \<longrightarrow> sigcache (env_set H opts (reached H penv fresh history))
                = sigcache (reached H penv fresh history))
     \<and> (typeof (field (options_of opts) ''useWorkers'') \<noteq> TBoolean
            \<longrightarrow> useWorkers (env_set H opts (reached H penv fresh history))
                = useWorkers (reached H penv fresh history))"
proof -
  have "useWorkers (env_set H opts (reached H penv fresh history))
      = useWorkers (reached H penv fresh history)"
    if "typeof (field (options_of opts) ''useWorkers'') \<noteq> TBoolean"
    using that by (simp add: set_flag not_boolean reached_gated)
  with set_result [OF assms, where opts = opts and e = "reached H penv fresh history"]
  show ?thesis by blast
qed

theorem set_keeps_unset_options_witness:
  "typeof (field (options_of sample_options) ''maxWorkers'') \<noteq> TNumber
   \<and> pool_size (env_set bare_browser sample_options (reached bare_browser sample_env env0 [VObject []]))
       = pool_size (reached bare_browser sample_env env0 [VObject []])
   \<and> typeof (field (options_of sample_options) ''workerTimeout'') \<noteq> TNumber
   \<and> pool_timeout (env_set bare_browser sample_options (reached bare_browser sample_env env0 [VObject []]))
       = pool_timeout (reached bare_browser sample_env env0 [VObject []])
   \<and> typeof (field (options_of sample_options) ''sigcacheSize'') \<noteq> TNumber
   \<and> sigcache (env_set bare_browser sample_options (reached bare_browser sample_env env0 [VObject []]))
       = sigcache (reached bare_browser sample_env env0 [VObject []])
   \<and> typeof (field (options_of sample_options) ''useWorkers'') \<noteq> TBoolean
   \<and> useWorkers (env_set bare_browser sample_options (reached bare_browser sample_env env0 [VObject []]))
       = useWorkers (reached bare_browser sample_env env0 [VObject []])"
proof -
  have h: "\<And>v. isNumber bare_browser v \<Longrightarrow> typeof v = TNumber"
    by (simp add: bare_browser_def node_host_def finite_number_typeof)
  have a: "typeof (field (options_of sample_options) ''maxWorkers'') \<noteq> TNumber"
    "typeof (field (options_of sample_options) ''workerTimeout'') \<noteq> TNumber"
    "typeof (field (options_of sample_options) ''sigcacheSize'') \<noteq> TNumber"
    "typeof (field (options_of sample_options) ''useWorkers'') \<noteq> TBoolean"
    by (simp_all add: options_of_def sample_options_def)
  from set_keeps_unset_options
    [OF h, where opts = sample_options and penv = sample_env and fresh = env0
      and history = "[VObject []]"] a
  show ?thesis by simp
qed

text \<open>
  The constructor in a browser without workers, asked for workers by the process
  environment: the flag is false afterwards, and the size it was given is set.
\<close>

lemma constructor_in_bare_browser:
  "useWorkers (Environment bare_browser sample_env env0) = False
   \<and> pool_size (Environment bare_browser sample_env env0) = VNumber (Finite 8)
   \<and> pool_timeout (Environment bare_browser sample_env env0) = pool_timeout env0
   \<and> useWorkers (Environment node_host sample_env env0) = True"
  by (simp add: Environment_def constructor_options_def env_set_def options_of_def
      node_host_def bare_browser_def env0_def sample_env_def)

section \<open>Properties of the worker jobs\<close>

text \<open>
  Claim C3 (the code departs from it). The job calls the signing method with the
  transaction itself as first argument, \<^verbatim>\<open>tx.signInput(tx, index, key, type)\<close>, so the
  method finds the transaction where its index belongs, the index where the key
  belongs and the key where the sighash type belongs. With a method of the documented
  signature the job fails where the documented call returns the input's pair.
\<close>

theorem signInput_passes_tx_first:
  "jobs_signInput sample_signInput sample_tx 0 [1, 2, 3] 1 = Inl TypeError
   \<and> documented_signInput sample_signInput sample_tx 0 [1, 2, 3] 1 = Inr (Some ([1, 2, 3], [[1]]))"
  by (simp add: jobs_signInput_def documented_signInput_def sample_tx_def signed_pair_def)

text \<open>
  Claim C8. For every password, salt, N, r, p and output length, the scrypt job returns
  what the key-derivation function itself returns on the same arguments in the same
  order, whatever that function is; in particular for ``pass'', ``NaCl'', 2, 8, 1, 32.
\<close>

theorem scrypt_job_is_direct_call:
  "jobs_scrypt scrypt passwd salt N r p len = scrypt passwd salt N r p len
   \<and> jobs_scrypt scrypt ''pass'' ''NaCl'' 2 8 1 32 = scrypt ''pass'' ''NaCl'' 2 8 1 32"
  by (simp add: jobs_scrypt_def)

end
